theory Spec2Isabelle
  imports Complex_Main "HOL-Library.Log_Nat"
begin

section \<open>Values exchanged with the page\<close>

text \<open>
  Strings are byte strings in UTF-8; the characters the code inspects (double quote, comma,
  carriage return, line feed, backslash) are ASCII, so replacing and joining act on the
  bytes as they act on the source's strings.

  A captured payload is the result of \<^verbatim>\<open>JSON.parse\<close>, so it is a finite JSON value.
  A number is held as the text \<^verbatim>\<open>String(n)\<close> renders for it: the code under study never
  calculates with a payload's numbers, it only prints them. An object is its own
  enumerable properties in the order of \<^verbatim>\<open>Object.keys\<close>; in an object read from JSON the
  keys are pairwise distinct.

  A property read \<^verbatim>\<open>item[h]\<close> finds the own properties of an object and the indices and
  the length of an array in the value itself. Every other member is supplied by the
  engine: the members inherited from a prototype (\<^verbatim>\<open>constructor\<close>, \<^verbatim>\<open>toString\<close>, \<^verbatim>\<open>map\<close>, ...)
  and the indices and the length of a string. The functions that read a property by an
  arbitrary name take these members as a parameter.
\<close>

datatype js_error = TypeError

datatype json =
    JNull
  | JBool bool
  | JNum string
  | JStr string
  | JArr "json list"
  | JObj "(string \<times> json) list"

definition dquote :: char where
  "dquote = CHR 0x22"

definition backslash :: char where
  "backslash = CHR 0x5C"

definition CR :: char where
  "CR = CHR 0x0D"

definition LF :: char where
  "LF = CHR 0x0A"

text \<open>\<^verbatim>\<open>Array.prototype.join\<close> on strings.\<close>

fun join :: "string \<Rightarrow> string list \<Rightarrow> string" where
  "join sep [] = []"
| "join sep [x] = x"
| "join sep (x # y # ys) = x @ sep @ join sep (y # ys)"

text \<open>The decimal rendering of a natural number, as \<^verbatim>\<open>String(i)\<close> gives it for an index.\<close>

definition digit_char :: "nat \<Rightarrow> char" where
  "digit_char d = ''0123456789abcdef'' ! d"

fun show_nat :: "nat \<Rightarrow> string" where
  "show_nat n = (if n < 10 then [digit_char n] else show_nat (n div 10) @ [digit_char (n mod 10)])"

declare show_nat.simps [simp del]

text \<open>An exception thrown inside \<^verbatim>\<open>xs.map(f)\<close> leaves the loop at the first failing element.\<close>

fun sequence_err :: "('e + 'a) list \<Rightarrow> 'e + 'a list" where
  "sequence_err [] = Inr []"
| "sequence_err (Inl e # rs) = Inl e"
| "sequence_err (Inr x # rs) = (case sequence_err rs of Inl e \<Rightarrow> Inl e | Inr xs \<Rightarrow> Inr (x # xs))"

definition String_bool :: "bool \<Rightarrow> string" where
  "String_bool b = (if b then ''true'' else ''false'')"

text \<open>
  \<^verbatim>\<open>typeof v === 'object' && v !== null\<close>: arrays and objects.
\<close>

fun is_object :: "json \<Rightarrow> bool" where
  "is_object (JArr xs) = True"
| "is_object (JObj kvs) = True"
| "is_object v = False"

text \<open>\<^verbatim>\<open>typeof v !== 'object' || v === null\<close>, the test for a primitive in \<^verbatim>\<open>flattenValue\<close>.\<close>

definition is_primitive :: "json \<Rightarrow> bool" where
  "is_primitive v = (\<not> is_object v)"

text \<open>\<^verbatim>\<open>Object.keys(v)\<close> for an object or an array (whose keys are its indices).\<close>

fun Object_keys :: "json \<Rightarrow> string list" where
  "Object_keys (JObj kvs) = map fst kvs"
| "Object_keys (JArr xs) = map show_nat [0..<length xs]"
| "Object_keys v = []"

text \<open>
  \<^verbatim>\<open>String(v)\<close>. For an object the conversion calls the object's \<^verbatim>\<open>toString\<close>; an own
  property of that name read from JSON is not callable, the inherited \<^verbatim>\<open>valueOf\<close> returns
  the object itself, and the conversion throws a TypeError. An array is converted by
  \<^verbatim>\<open>join(',')\<close>, which renders null as the empty string.
\<close>

fun String_js :: "json \<Rightarrow> js_error + string" where
  "String_js JNull = Inr ''null''"
| "String_js (JBool b) = Inr (String_bool b)"
| "String_js (JNum n) = Inr n"
| "String_js (JStr s) = Inr s"
| "String_js (JArr xs) =
     map_sum id (join '','')
       (sequence_err (map (\<lambda>x. if x = JNull then Inr [] else String_js x) xs))"
| "String_js (JObj kvs) =
     (if ''toString'' \<in> set (map fst kvs) then Inl TypeError else Inr ''[object Object]'')"

text \<open>
  \<^verbatim>\<open>JSON.stringify(v)\<close> without indentation. A number that is not finite is printed as
  \<^verbatim>\<open>null\<close>; \<^verbatim>\<open>JSON.parse\<close> reads a literal beyond the range of a double, such as \<^verbatim>\<open>1e999\<close>, as
  \<^verbatim>\<open>Infinity\<close>.
\<close>

definition is_finite_number :: "string \<Rightarrow> bool" where
  "is_finite_number n = (n \<noteq> ''Infinity'' \<and> n \<noteq> ''-Infinity'' \<and> n \<noteq> ''NaN'')"

definition JSON_escape_char :: "char \<Rightarrow> string" where
  "JSON_escape_char c =
     (if c = dquote then [backslash, dquote]
      else if c = backslash then [backslash, backslash]
      else if c = CHR 0x08 then [backslash, CHR ''b'']
      else if c = CHR 0x0C then [backslash, CHR ''f'']
      else if c = LF then [backslash, CHR ''n'']
      else if c = CR then [backslash, CHR ''r'']
      else if c = CHR 0x09 then [backslash, CHR ''t'']
      else if (of_char c :: nat) < 32
        then [backslash, CHR ''u'', CHR ''0'', CHR ''0'',
              digit_char (of_char c div 16), digit_char (of_char c mod 16)]
      else [c])"

definition JSON_quote :: "string \<Rightarrow> string" where
  "JSON_quote s = dquote # concat (map JSON_escape_char s) @ [dquote]"

fun JSON_stringify :: "json \<Rightarrow> string" where
  "JSON_stringify JNull = ''null''"
| "JSON_stringify (JBool b) = String_bool b"
| "JSON_stringify (JNum n) = (if is_finite_number n then n else ''null'')"
| "JSON_stringify (JStr s) = JSON_quote s"
| "JSON_stringify (JArr xs) = ''['' @ join '','' (map JSON_stringify xs) @ '']''"
| "JSON_stringify (JObj kvs) =
     ''{'' @ join '','' (map (\<lambda>(k, v). JSON_quote k @ '':'' @ JSON_stringify v) kvs) @ ''}''"

section \<open>ValueFlattener: flattenValue\<close>

text \<open>
  \<^verbatim>\<open>val[k]\<close> for an own property; \<open>None\<close> is \<^verbatim>\<open>undefined\<close>.
\<close>

definition own_prop :: "(string \<times> json) list \<Rightarrow> string \<Rightarrow> json option" where
  "own_prop kvs k = map_of kvs k"

fun first_own :: "(string \<times> json) list \<Rightarrow> string list \<Rightarrow> json option" where
  "first_own kvs [] = None"
| "first_own kvs (k # ks) =
     (case own_prop kvs k of Some v \<Rightarrow> Some v | None \<Rightarrow> first_own kvs ks)"

text \<open>
  The object branch is the source's sequence of ten tests
  \<^verbatim>\<open>if (val.k !== undefined) return ...\<close>: the first six return \<^verbatim>\<open>flattenValue(val.k)\<close>, the last
  four \<^verbatim>\<open>String(val.k)\<close>. \<open>first_own kvs ks\<close> is the value of the first key of \<open>ks\<close> that the
  object owns.
\<close>

function (sequential) flattenValue :: "json \<Rightarrow> js_error + string" where
  "flattenValue JNull = Inr []"
| "flattenValue (JStr s) = Inr s"
| "flattenValue (JNum n) = Inr n"
| "flattenValue (JBool b) = Inr (String_bool b)"
| "flattenValue (JArr xs) =
     (if xs = [] then Inr []
      else if list_all is_primitive xs
        then map_sum id (join ''; '')
               (sequence_err (map (\<lambda>v. if v = JNull then Inr [] else String_js v) xs))
      else map_sum id (join ''; '') (sequence_err (map flattenValue xs)))"
| "flattenValue (JObj kvs) =
     (case first_own kvs [''value'', ''text'', ''name'', ''label'', ''title'', ''display''] of
        Some v \<Rightarrow> flattenValue v
      | None \<Rightarrow>
     (case first_own kvs [''url'', ''href'', ''email'', ''phone''] of
        Some v \<Rightarrow> String_js v
      | None \<Rightarrow>
      if length kvs \<le> 4
        then map_sum id (join '', '')
               (sequence_err
                  (map (\<lambda>(k, v). map_sum id (\<lambda>s. k @ ('': '' @ s)) (flattenValue v)) kvs))
      else Inr (JSON_stringify (JObj kvs))))"
  by pat_completeness auto

termination flattenValue
proof -
  have own: "size v < Suc (size_list (size_prod (\<lambda>x. 0) size) kvs)"
    if "own_prop kvs k = Some v" for kvs k and v :: json
    using that unfolding own_prop_def by (induction kvs) (auto split: if_splits)
  have first: "size v < Suc (size_list (size_prod (\<lambda>x. 0) size) kvs)"
    if "first_own kvs ks = Some v" for kvs ks and v :: json
    using that by (induction ks) (auto split: option.splits dest: own)
  have elem: "size v < Suc (size_list (size_prod (\<lambda>x. 0) size) kvs)"
    if "(k, v) \<in> set kvs" for kvs k and v :: json
    using that by (induction kvs) auto
  have item: "size x < Suc (size_list size xs)" if "x \<in> set xs" for xs and x :: json
    using that by (induction xs) auto
  show ?thesis
    by (relation "measure size") (auto simp del: first_own.simps dest: first elem item)
qed

section \<open>TableShapeDetector: findAllTableArrays\<close>

text \<open>
  The callback of \<^verbatim>\<open>every\<close>: the item is an object (an array counts) and at least half of
  the first element's keys are among its keys.
\<close>

definition isConsistent_item :: "string list \<Rightarrow> json \<Rightarrow> bool" where
  "isConsistent_item firstKeys item =
     (is_object item \<and>
      (let keys = Object_keys item;
           overlap = filter (\<lambda>k. k \<in> set keys) firstKeys
       in real (length firstKeys) * 0.5 \<le> real (length overlap)))"

text \<open>The test under which \<^verbatim>\<open>findAllTableArrays\<close> pushes an array to its results.\<close>

fun looks_like_rows :: "json list \<Rightarrow> bool" where
  "looks_like_rows (JObj kvs # rest) =
     (let obj = JObj kvs # rest; firstKeys = Object_keys (JObj kvs)
      in 2 \<le> length firstKeys \<and>
         list_all (isConsistent_item firstKeys) (take (min 5 (length obj)) obj))"
| "looks_like_rows obj = False"

text \<open>
  \<^verbatim>\<open>findAllTableArrays(obj, depth, results)\<close>; the result list holds the arrays that were pushed,
  each as the list of its elements. The loop over \<^verbatim>\<open>Object.keys(obj)\<close> reads \<^verbatim>\<open>obj[key]\<close> for
  each key in order, that is, it visits the property values in order.
\<close>

fun findAllTableArrays :: "json \<Rightarrow> nat \<Rightarrow> json list list \<Rightarrow> json list list" where
  "findAllTableArrays (JArr xs) depth results =
     (if depth > 8 then results
      else fold (\<lambda>item res. if is_object item then findAllTableArrays item (depth + 1) res else res)
             xs (if looks_like_rows xs then results @ [xs] else results))"
| "findAllTableArrays (JObj kvs) depth results =
     (if depth > 8 then results
      else fold (\<lambda>(key, v) res. findAllTableArrays v (depth + 1) res) kvs results)"
| "findAllTableArrays v depth results = results"

section \<open>ApiTableAssembler: extractHeadersFromObjects, parseApiResponsesToTable\<close>

record table =
  headers :: "string list"
  rows :: "string list list"

record payload =
  url :: string
  http_method :: string
  data :: json
  hasTableData :: bool
  timestamp :: nat

text \<open>\<^verbatim>\<open>Set.prototype.add\<close> on a set kept in insertion order.\<close>

definition Set_add :: "string list \<Rightarrow> string \<Rightarrow> string list" where
  "Set_add s k = (if k \<in> set s then s else s @ [k])"

definition skipKeys :: "string list" where
  "skipKeys = [''__typename'', ''_id'', ''createdAt'', ''updatedAt'', ''created_at'',
               ''updated_at'', ''__v'', ''cursor'', ''node'']"

text \<open>
  \<^verbatim>\<open>Object.keys(arr[0])\<close> throws when \<^verbatim>\<open>arr[0]\<close> is undefined or null. The loop runs over the
  indices \<open>1 \<le> i < min(arr.length, 10)\<close>. The function is called with the arrays that
  \<^verbatim>\<open>findAllTableArrays\<close> returned, whose first element is an object.
\<close>

fun extractHeadersFromObjects :: "json list \<Rightarrow> js_error + string list" where
  "extractHeadersFromObjects [] = Inl TypeError"
| "extractHeadersFromObjects (JNull # rest) = Inl TypeError"
| "extractHeadersFromObjects (first # rest) =
     (let arr = first # rest;
          firstKeys = Object_keys first;
          allKeys = fold (\<lambda>item acc. if is_object item then fold (\<lambda>key s. Set_add s key) (Object_keys item) acc
                                      else acc)
                      (drop 1 (take (min (length arr) 10) arr))
                      (fold (\<lambda>key s. Set_add s key) firstKeys [])
      in Inr (filter (\<lambda>k. k \<notin> set skipKeys) allKeys))"

text \<open>
  \<^verbatim>\<open>item[h]\<close> as far as the value itself decides it: an own property of an object; an element
  or the length of an array. For null the read throws, which \<open>cell_text\<close> below models.
\<close>

fun get_prop :: "json \<Rightarrow> string \<Rightarrow> json option" where
  "get_prop (JObj kvs) h = own_prop kvs h"
| "get_prop (JArr xs) h =
     (if h = ''length'' then Some (JNum (show_nat (length xs)))
      else map_option (\<lambda>i. xs ! i) (find (\<lambda>i. show_nat i = h) [0..<length xs]))"
| "get_prop v h = None"

text \<open>
  The members that the engine supplies. For an item that is not null and a name \<open>h\<close> that
  \<open>get_prop\<close> does not find, \<open>inherited item h\<close> is the text that \<^verbatim>\<open>flattenValue(item[h])\<close>
  returns when the engine gives \<^verbatim>\<open>item[h]\<close> a value (the source text of a built-in function,
  the character of a string at an index, ...), and \<open>None\<close> when \<^verbatim>\<open>item[h]\<close> is undefined. Which
  names have a value, and the text of a built-in function, depend on the engine and its
  version.
\<close>

type_synonym members = "json \<Rightarrow> string \<Rightarrow> string option"

text \<open>
  \<^verbatim>\<open>flattenValue(item[h])\<close>. Reading a property of null throws; the flattening of undefined is
  the empty string.
\<close>

definition cell_text :: "members \<Rightarrow> json \<Rightarrow> string \<Rightarrow> js_error + string" where
  "cell_text inherited item h =
     (if item = JNull then Inl TypeError
      else case get_prop item h of
        Some v \<Rightarrow> flattenValue v
      | None \<Rightarrow> (case inherited item h of Some text \<Rightarrow> Inr text | None \<Rightarrow> Inr []))"

text \<open>\<^verbatim>\<open>headers.map(h => flattenValue(item[h]))\<close>.\<close>

definition row_of :: "members \<Rightarrow> string list \<Rightarrow> json \<Rightarrow> js_error + string list" where
  "row_of inherited hs item = sequence_err (map (cell_text inherited item) hs)"

text \<open>A \<^verbatim>\<open>for\<close> loop over a list whose body may throw.\<close>

fun fold_err :: "('a \<Rightarrow> 's \<Rightarrow> 'e + 's) \<Rightarrow> 'a list \<Rightarrow> 's \<Rightarrow> 'e + 's" where
  "fold_err f [] s = Inr s"
| "fold_err f (x # xs) s = (case f x s of Inl e \<Rightarrow> Inl e | Inr s' \<Rightarrow> fold_err f xs s')"

text \<open>The body of the inner loop of \<^verbatim>\<open>parseApiResponsesToTable\<close>, for one candidate.\<close>

definition consider_candidate ::
  "members \<Rightarrow> json list \<Rightarrow> table option \<Rightarrow> js_error + table option" where
  "consider_candidate inherited tableData bestResult =
     (if length tableData = 0 then Inr bestResult
      else case extractHeadersFromObjects tableData of
        Inl e \<Rightarrow> Inl e
      | Inr hs \<Rightarrow>
          if length hs = 0 then Inr bestResult
          else case sequence_err (map (row_of inherited hs) tableData) of
            Inl e \<Rightarrow> Inl e
          | Inr rs \<Rightarrow>
              (case bestResult of
                 None \<Rightarrow> Inr (Some \<lparr>headers = hs, rows = rs\<rparr>)
               | Some best \<Rightarrow>
                   if length rs > length (rows best) then Inr (Some \<lparr>headers = hs, rows = rs\<rparr>)
                   else Inr bestResult))"

definition parseApiResponsesToTable :: "members \<Rightarrow> payload list \<Rightarrow> js_error + table option" where
  "parseApiResponsesToTable inherited responses =
     fold_err (\<lambda>resp best.
                 fold_err (consider_candidate inherited) (findAllTableArrays (data resp) 0 []) best)
       responses None"

section \<open>The capture store and its handlers\<close>

record table_meta =
  tableName :: string
  sourceName :: string
  sourceLabel :: string
  totalRecords :: nat
  searchFields :: "(string \<times> string) list"

record capturedData =
  apiResponses :: "payload list"
  parsedTable :: "table option"
  capture_method :: "string option"
  capturedAt :: "nat option"
  sourceUrl :: "string option"
  tableMeta :: "table_meta option"

text \<open>
  \<^verbatim>\<open>handleApiCapture(payload, tab)\<close>. \<open>tab_url\<close> is \<^verbatim>\<open>tab?.url\<close>, \<open>now\<close> is \<^verbatim>\<open>Date.now()\<close>. The
  store is module state: what was written before an exception stays written, so the
  result is the store together with the exception, if one was thrown.
\<close>

definition handleApiCapture ::
  "members \<Rightarrow> payload \<Rightarrow> string option \<Rightarrow> nat \<Rightarrow> capturedData
     \<Rightarrow> js_error option \<times> capturedData" where
  "handleApiCapture inherited p tab_url now st =
     (let rs = (if hasTableData p then p # apiResponses st else apiResponses st @ [p]);
          rs' = (if length rs > 100 then take 100 rs else rs);
          st1 = st\<lparr>apiResponses := rs',
                   sourceUrl := (case tab_url of None \<Rightarrow> None
                                 | Some u \<Rightarrow> if u = [] then None else Some u)\<rparr>
      in if hasTableData p then
           (case parseApiResponsesToTable inherited rs' of
              Inl e \<Rightarrow> (Some e, st1)
            | Inr None \<Rightarrow> (None, st1)
            | Inr (Some parsed) \<Rightarrow>
                if length (rows parsed) > 0 then
                  (case parsedTable st1 of
                     None \<Rightarrow>
                       (None, st1\<lparr>parsedTable := Some parsed, capture_method := Some ''api'',
                                   capturedAt := Some now\<rparr>)
                   | Some old \<Rightarrow>
                       if length (rows parsed) \<ge> length (rows old)
                       then (None, st1\<lparr>parsedTable := Some parsed, capture_method := Some ''api'',
                                        capturedAt := Some now\<rparr>)
                       else (None, st1))
                else (None, st1))
         else (None, st1))"

text \<open>
  \<^verbatim>\<open>handleUseApiData(sendResponse)\<close>. The reply carries the data of the source's message:
  for the second failure, the number of responses, the number flagged as tabular and the
  joined URLs of the first five.
\<close>

datatype api_reply =
    NoResponsesCaptured
  | CouldNotMap nat nat string
  | ApiSuccess "string list" "string list list" nat string

definition handleUseApiData ::
  "members \<Rightarrow> nat \<Rightarrow> capturedData \<Rightarrow> (js_error + api_reply) \<times> capturedData" where
  "handleUseApiData inherited now st =
     (if length (apiResponses st) = 0 then (Inr NoResponsesCaptured, st)
      else case parseApiResponsesToTable inherited (apiResponses st) of
        Inl e \<Rightarrow> (Inl e, st)
      | Inr None \<Rightarrow>
          (Inr (CouldNotMap (length (apiResponses st))
                  (length (filter hasTableData (apiResponses st)))
                  (join '', '' (map url (take 5 (apiResponses st))))), st)
      | Inr (Some parsed) \<Rightarrow>
          if length (rows parsed) > 0 then
            (Inr (ApiSuccess (headers parsed) (rows parsed) (length (rows parsed)) ''api''),
             st\<lparr>parsedTable := Some parsed, capture_method := Some ''api'', capturedAt := Some now\<rparr>)
          else
            (Inr (CouldNotMap (length (apiResponses st))
                    (length (filter hasTableData (apiResponses st)))
                    (join '', '' (map url (take 5 (apiResponses st))))), st))"

text \<open>
  \<^verbatim>\<open>forwardToContentScript(action, sendResponse)\<close>. The active tab and the content script's
  answer come from the browser: \<open>tab\<close> is the active tab, if any, given by its URL, if it has
  one; \<open>answer\<close> is what \<^verbatim>\<open>chrome.tabs.sendMessage\<close> resolved to (\<open>Inr\<close>, where \<open>None\<close> is
  undefined) or the message of the error it threw (\<open>Inl\<close>).
\<close>

datatype scrape_result =
    ScrapeSuccess "string list" "string list list" string
  | ScrapeFailure string

datatype forward_reply =
    ForwardError string
  | Forwarded "scrape_result option"

fun starts_with :: "string \<Rightarrow> string \<Rightarrow> bool" where
  "starts_with s [] = True"
| "starts_with [] (c # cs) = False"
| "starts_with (x # xs) (c # cs) = (x = c \<and> starts_with xs cs)"

fun String_includes :: "string \<Rightarrow> string \<Rightarrow> bool" where
  "String_includes [] t = (t = [])"
| "String_includes (x # xs) t = (starts_with (x # xs) t \<or> String_includes xs t)"

definition forwardToContentScript ::
  "string option option \<Rightarrow> (string + scrape_result option) \<Rightarrow> nat \<Rightarrow> capturedData
     \<Rightarrow> forward_reply \<times> capturedData" where
  "forwardToContentScript tab answer now st =
     (case tab of
        None \<Rightarrow> (ForwardError ''No active tab found'', st)
      | Some tab_url \<Rightarrow>
          if tab_url = None \<or> tab_url = Some [] \<or> \<not> String_includes (the tab_url) ''app.clay.com''
          then (ForwardError ''Not on a Clay.com page'', st)
          else case answer of
            Inl msg \<Rightarrow>
              (ForwardError (''Could not communicate with the page: '' @ msg
                              @ ''. Try reloading the Clay page.''), st)
          | Inr (Some (ScrapeSuccess hs rs m)) \<Rightarrow>
              (Forwarded (Some (ScrapeSuccess hs rs m)),
               st\<lparr>parsedTable := Some \<lparr>headers = hs, rows = rs\<rparr>, capture_method := Some m,
                    capturedAt := Some now, sourceUrl := tab_url\<rparr>)
          | Inr result \<Rightarrow> (Forwarded result, st))"

section \<open>TableSerializer: generateCSV, applyRange\<close>

text \<open>
  A JavaScript \<^verbatim>\<open>Map\<close>, and an object built by assignments, keep their keys in insertion
  order; writing to a key that is present replaces its value in place.
\<close>

definition Map_has :: "('k \<times> 'v) list \<Rightarrow> 'k \<Rightarrow> bool" where
  "Map_has m k = (map_of m k \<noteq> None)"

definition Map_get :: "('k \<times> 'v) list \<Rightarrow> 'k \<Rightarrow> 'v option" where
  "Map_get m k = map_of m k"

fun Map_set :: "('k \<times> 'v) list \<Rightarrow> 'k \<Rightarrow> 'v \<Rightarrow> ('k \<times> 'v) list" where
  "Map_set [] k v = [(k, v)]"
| "Map_set ((k', v') # m) k v = (if k' = k then (k, v) # m else (k', v') # Map_set m k v)"

text \<open>
  The own property keys of an ordinary object are enumerated with the array indices first,
  in ascending numeric order, and then the other keys in the order in which they were
  created. An array index is a key that is the decimal rendering of a number below
  \<open>2\<^sup>3\<^sup>2 - 1\<close>.
\<close>

definition parse_nat :: "string \<Rightarrow> nat" where
  "parse_nat s = foldl (\<lambda>n c. 10 * n + (of_char c - 48)) 0 s"

definition is_array_index :: "string \<Rightarrow> bool" where
  "is_array_index k = (k = show_nat (parse_nat k) \<and> parse_nat k < 4294967295)"

definition own_property_order :: "(string \<times> 'v) list \<Rightarrow> (string \<times> 'v) list" where
  "own_property_order m =
     sort_key (\<lambda>(k, v). parse_nat k) (filter (\<lambda>(k, v). is_array_index k) m)
     @ filter (\<lambda>(k, v). \<not> is_array_index k) m"

text \<open>
  \<^verbatim>\<open>buildSearchMetadata()\<close>. The values are kept as the strings \<^verbatim>\<open>generateCSV\<close> prints,
  \<^verbatim>\<open>String(val)\<close>; null is \<open>None\<close>. The result is an object built by assignments; it is
  given with its keys in the order in which \<^verbatim>\<open>Object.keys\<close> and \<^verbatim>\<open>Object.entries\<close> enumerate
  them.
\<close>

definition buildSearchMetadata :: "capturedData \<Rightarrow> (string \<times> string) list option" where
  "buildSearchMetadata st =
     (case tableMeta st of
        None \<Rightarrow> None
      | Some meta \<Rightarrow>
          (let r1 = (if tableName meta \<noteq> [] then Map_set [] ''Table Name'' (tableName meta) else []);
               r2 = (if sourceName meta \<noteq> [] then Map_set r1 ''Source'' (sourceName meta) else r1);
               r3 = (if totalRecords meta \<noteq> 0
                     then Map_set r2 ''Total Records'' (show_nat (totalRecords meta)) else r2);
               result = own_property_order (fold (\<lambda>(k, v) r. Map_set r k v) (searchFields meta) r3)
           in if length result > 0 then Some result else None))"

text \<open>The byte order mark U+FEFF, in UTF-8.\<close>

definition BOM :: string where
  "BOM = [CHR 0xEF, CHR 0xBB, CHR 0xBF]"

text \<open>\<^verbatim>\<open>str.replace(/"/g, '""')\<close>.\<close>

definition double_quotes :: "string \<Rightarrow> string" where
  "double_quotes str = concat (map (\<lambda>c. if c = dquote then [dquote, dquote] else [c]) str)"

text \<open>The local function \<^verbatim>\<open>escape\<close>; \<open>None\<close> is an undefined value, as \<^verbatim>\<open>row[i]\<close> past the end.\<close>

definition escape :: "string option \<Rightarrow> string" where
  "escape val =
     (let str = (case val of None \<Rightarrow> [] | Some s \<Rightarrow> s)
      in [dquote] @ double_quotes str @ [dquote])"

definition row_cell :: "string list \<Rightarrow> nat \<Rightarrow> string option" where
  "row_cell row i = (if i < length row then Some (row ! i) else None)"

definition generateCSV :: "capturedData \<Rightarrow> string list \<Rightarrow> string list list \<Rightarrow> string" where
  "generateCSV st hs rs =
     (let lines0 =
            (case buildSearchMetadata st of
               None \<Rightarrow> []
             | Some metadata \<Rightarrow>
                 [[dquote] @ ''--- SEARCH PARAMETERS ---'' @ [dquote]]
                 @ map (\<lambda>(key, val). escape (Some key) @ '','' @ escape (Some val)) metadata
                 @ [[dquote] @ ''---'' @ [dquote], []]);
          lines1 = lines0 @ [join '','' (map (\<lambda>h. escape (Some h)) hs)];
          lines2 = lines1 @ map (\<lambda>row. join '','' (map (\<lambda>i. escape (row_cell row i)) [0..<length hs])) rs
      in BOM @ join [CR, LF] lines2)"

text \<open>
  \<^verbatim>\<open>Array.prototype.slice(a, b)\<close> for integer arguments: a negative argument counts from the
  end, both are brought into \<open>0..length\<close>.
\<close>

definition slice :: "'a list \<Rightarrow> int \<Rightarrow> int \<Rightarrow> 'a list" where
  "slice xs a b =
     (let len = int (length xs);
          k = (if a < 0 then max (len + a) 0 else min a len);
          final = (if b < 0 then max (len + b) 0 else min b len)
      in take (nat (max (final - k) 0)) (drop (nat k) xs))"

text \<open>
  A range arrives in a message and holds two integers; \<^verbatim>\<open>applyRange\<close> does not test them.
  (The popup's \<^verbatim>\<open>parseRowRange\<close> sends a start of at least 1.) \<open>None\<close> is the absent range.
\<close>

record range =
  range_start :: int
  range_end :: int

definition applyRange :: "'a list \<Rightarrow> range option \<Rightarrow> 'a list" where
  "applyRange rs r =
     (case r of None \<Rightarrow> rs
      | Some rg \<Rightarrow> slice rs (range_start rg - 1) (range_end rg))"

section \<open>RowMerger: mergeRows\<close>

record row_data =
  index :: int
  cells :: "(string \<times> string) list"

text \<open>The inner loop of \<^verbatim>\<open>mergeRows\<close>, over the cells of an incoming row whose id is known.\<close>

definition merge_cells :: "(string \<times> string) list \<Rightarrow> (string \<times> string) list \<Rightarrow> (string \<times> string) list" where
  "merge_cells existing_cells incoming =
     fold (\<lambda>(fid, val) c.
             if val \<noteq> [] \<and> (\<not> Map_has c fid \<or> Map_get c fid = Some []) then Map_set c fid val
             else c)
       incoming existing_cells"

text \<open>
  \<^verbatim>\<open>mergeRows(target, source)\<close>. The source mutates \<open>target\<close>; the model returns the new map.
  \<^verbatim>\<open>existing.cells.set\<close> changes the entry that \<open>target\<close> holds, which is the update of that
  entry here.
\<close>

definition mergeRows ::
  "(string \<times> row_data) list \<Rightarrow> (string \<times> row_data) list \<Rightarrow> (string \<times> row_data) list" where
  "mergeRows target source =
     fold (\<lambda>(rowId, rowData) t.
             case Map_get t rowId of
               Some existing \<Rightarrow>
                 Map_set t rowId (existing\<lparr>cells := merge_cells (cells existing) (cells rowData)\<rparr>)
             | None \<Rightarrow> Map_set t rowId rowData)
       source target"

section \<open>GridTraversalController: the horizontal positions\<close>

text \<open>
  A JavaScript number is a double of IEEE 754: zero, or a real number \<open>\<plusminus> m \<sqdot> 2\<^sup>e\<^sup>-\<^sup>5\<^sup>2\<close> with
  an integer \<open>2\<^sup>5\<^sup>2 \<le> m < 2\<^sup>5\<^sup>3\<close>. It is modelled as the real number it denotes. The value of a
  decimal literal, and the result of a multiplication or an addition, is the exact value
  rounded to the nearest double, a tie going to the double whose \<open>m\<close> is even.

  \<open>binary_exponent x\<close> is, for \<open>0 < x\<close>, the integer \<open>e\<close> with \<open>2\<^sup>e \<le> x < 2\<^sup>e\<^sup>+\<^sup>1\<close>; the doubles between
  these two powers are the multiples of \<open>2\<^sup>e\<^sup>-\<^sup>5\<^sup>2\<close>. The numbers of this computation are zero or
  lie between \<open>2\<^sup>-\<^sup>1\<^sup>0\<^sup>2\<^sup>2\<close> and \<open>2\<^sup>1\<^sup>0\<^sup>2\<^sup>4\<close> in absolute value, where a double has this form and
  rounding does not overflow.
\<close>

definition round_ties_even :: "real \<Rightarrow> int" where
  "round_ties_even x =
     (let n = \<lfloor>x\<rfloor>; r = x - of_int n
      in if r < 1 / 2 then n else if 1 / 2 < r then n + 1 else if even n then n else n + 1)"

definition binary_exponent :: "real \<Rightarrow> int" where
  "binary_exponent x =
     (if 1 \<le> x then bitlen \<lfloor>x\<rfloor> - 1
      else (let k = bitlen \<lfloor>1 / x\<rfloor> in if x * 2 ^ nat (k - 1) = 1 then 1 - k else - k))"

definition double_of :: "real \<Rightarrow> real" where
  "double_of x =
     (if x = 0 then 0
      else (let e = binary_exponent \<bar>x\<bar>
            in sgn x * of_int (round_ties_even (\<bar>x\<bar> * 2 powi (52 - e))) * 2 powi (e - 52)))"

text \<open>
  \<^verbatim>\<open>scrollWidth\<close> and \<^verbatim>\<open>clientWidth\<close> are attributes of type \<^verbatim>\<open>long\<close> of the DOM: integers of 32
  bits, which a double holds exactly, as it holds their difference \<^verbatim>\<open>maxScrollLeft\<close>.
  \<^verbatim>\<open>Math.max(scrollContainer.clientWidth * 0.6, 300)\<close>:
\<close>

definition horizontalStep :: "int \<Rightarrow> real" where
  "horizontalStep clientWidth = max (double_of (of_int clientWidth * double_of 0.6)) 300"

text \<open>
  The loop \<^verbatim>\<open>while (hPos < maxScrollLeft) { hPositions.push(hPos); hPos += horizontalStep; }\<close>,
  returning the positions it pushes. An addition that rounds back to \<open>hPos\<close> would keep
  the loop running for ever, which is the result \<open>None\<close>.
\<close>

partial_function (option) hLoop :: "real \<Rightarrow> real \<Rightarrow> real \<Rightarrow> real list option" where
  "hLoop step hPos maxScrollLeft =
     (if hPos < maxScrollLeft
      then Option.bind (hLoop step (double_of (hPos + step)) maxScrollLeft)
             (\<lambda>rest. Some (hPos # rest))
      else Some [])"

declare hLoop.simps [code]

text \<open>The list \<^verbatim>\<open>hPositions\<close> that \<^verbatim>\<open>scrapeAllRowsByScrolling\<close> builds.\<close>

definition hPositions :: "int \<Rightarrow> int \<Rightarrow> real list option" where
  "hPositions clientWidth maxScrollLeft =
     (if maxScrollLeft > 10
      then Option.bind
             (hLoop (horizontalStep clientWidth) (horizontalStep clientWidth) (of_int maxScrollLeft))
             (\<lambda>steps. Some ([0] @ steps @ [of_int maxScrollLeft]))
      else Some [0])"

section \<open>The session: successive captures\<close>

text \<open>The store as the module initialises it, and as \<^verbatim>\<open>CLEAR_DATA\<close> resets it.\<close>

definition initial_store :: capturedData where
  "initial_store =
     \<lparr>apiResponses = [], parsedTable = None, capture_method = None, capturedAt = None,
      sourceUrl = None, tableMeta = None\<rparr>"

text \<open>
  One \<^verbatim>\<open>API_DATA_CAPTURED\<close> message: the router calls \<^verbatim>\<open>handleApiCapture\<close> with the payload
  and the sender's tab; the store keeps what the handler wrote. A session delivers the
  messages in the order of their arrival.
\<close>

definition deliver ::
  "members \<Rightarrow> capturedData \<Rightarrow> payload \<times> string option \<times> nat \<Rightarrow> capturedData" where
  "deliver inherited st ev =
     (case ev of (p, tab_url, now) \<Rightarrow> snd (handleApiCapture inherited p tab_url now st))"

definition deliver_all :: "members \<Rightarrow> (payload \<times> string option \<times> nat) list \<Rightarrow> capturedData" where
  "deliver_all inherited evs = foldl (deliver inherited) initial_store evs"

section \<open>Notions of the specification\<close>

text \<open>
  The rows at the zero-based positions \<open>a \<le> i < b\<close> that exist, in order: the zero-based
  slice \<open>[a, b)\<close>. \<open>from_end xs a\<close> is the bound \<open>a\<close>, counted from the end of the rows when it
  is negative.
\<close>

definition zero_based_slice :: "'a list \<Rightarrow> int \<Rightarrow> int \<Rightarrow> 'a list" where
  "zero_based_slice xs a b =
     map (\<lambda>i. xs ! i) (filter (\<lambda>i. a \<le> int i \<and> int i < b) [0..<length xs])"

definition from_end :: "'a list \<Rightarrow> int \<Rightarrow> int" where
  "from_end xs a = (if a < 0 then int (length xs) + a else a)"

text \<open>
  The sum of \<open>k\<close> terms \<open>s + s + ... + s\<close>, each addition rounded to a double: the value of
  \<^verbatim>\<open>hPos\<close> in round \<open>k\<close> of the loop. \<open>hPos_after s h k\<close> is the value of \<^verbatim>\<open>hPos\<close> after \<open>k\<close> rounds of
  a loop that starts at \<open>h\<close>.
\<close>

fun repeated_sum :: "real \<Rightarrow> nat \<Rightarrow> real" where
  "repeated_sum s 0 = 0"
| "repeated_sum s (Suc k) = (if k = 0 then s else double_of (repeated_sum s k + s))"

fun hPos_after :: "real \<Rightarrow> real \<Rightarrow> nat \<Rightarrow> real" where
  "hPos_after s h 0 = h"
| "hPos_after s h (Suc k) = double_of (hPos_after s h k + s)"

text \<open>
  The offsets as the specification gives them, in exact arithmetic: 0 alone when
  \<open>maxScrollLeft \<le> 10\<close>; otherwise 0, the multiples \<open>k \<sqdot> step\<close> with \<open>1 \<le> k\<close> and
  \<open>k \<sqdot> step < maxScrollLeft\<close> for the step \<open>max(0.6 \<sqdot> width, 300)\<close>, and \<open>maxScrollLeft\<close>.
\<close>

definition exact_offsets :: "real \<Rightarrow> real \<Rightarrow> real list" where
  "exact_offsets clientWidth maxScrollLeft =
     (if maxScrollLeft \<le> 10 then [0]
      else (let step = max (0.6 * clientWidth) 300
            in [0] @ map (\<lambda>k. real k * step) [1..<nat \<lceil>maxScrollLeft / step\<rceil>] @ [maxScrollLeft]))"

text \<open>A response for the examples: the \<open>i\<close>-th to arrive, tabular or not.\<close>

definition sample_response :: "nat \<Rightarrow> bool \<Rightarrow> payload" where
  "sample_response i tabular =
     \<lparr>url = ''/api/'' @ show_nat i, http_method = ''GET'', data = JNull,
      hasTableData = tabular, timestamp = i\<rparr>"

text \<open>The bodies of the two loops of \<^verbatim>\<open>mergeRows\<close>, named for the proofs.\<close>

definition fill :: "string \<times> string \<Rightarrow> (string \<times> string) list \<Rightarrow> (string \<times> string) list" where
  "fill = (\<lambda>(fid, val) c.
             if val \<noteq> [] \<and> (\<not> Map_has c fid \<or> Map_get c fid = Some []) then Map_set c fid val
             else c)"

definition merge_row :: "string \<times> row_data \<Rightarrow> (string \<times> row_data) list \<Rightarrow> (string \<times> row_data) list" where
  "merge_row = (\<lambda>(rowId, rowData) t.
             case Map_get t rowId of
               Some existing \<Rightarrow>
                 Map_set t rowId (existing\<lparr>cells := merge_cells (cells existing) (cells rowData)\<rparr>)
             | None \<Rightarrow> Map_set t rowId rowData)"

text \<open>
  The keys the flattener tries on an object, in the order of the specification: those whose
  value the source flattens, then those whose value it converts with \<^verbatim>\<open>String\<close>.
\<close>

definition flatten_keys :: "string list" where
  "flatten_keys = [''value'', ''text'', ''name'', ''label'', ''title'', ''display'']"

definition string_keys :: "string list" where
  "string_keys = [''url'', ''href'', ''email'', ''phone'']"

definition priority_keys :: "string list" where
  "priority_keys = flatten_keys @ string_keys"

text \<open>
  The arrays that occur in a document at nesting depth at most \<open>n\<close> (the document itself is at
  depth 0, the elements of an array and the property values of an object are one level
  deeper), in document order, each as the list of its elements.
\<close>

fun arrays_within :: "nat \<Rightarrow> json \<Rightarrow> json list list" where
  "arrays_within n (JArr xs) =
     xs # (case n of 0 \<Rightarrow> [] | Suc m \<Rightarrow> concat (map (arrays_within m) xs))"
| "arrays_within n (JObj kvs) =
     (case n of 0 \<Rightarrow> [] | Suc m \<Rightarrow> concat (map (\<lambda>(k, v). arrays_within m v) kvs))"
| "arrays_within n v = []"

text \<open>
  The specification's test for a table candidate. An object in the sense of
  \<^verbatim>\<open>typeof\<close> is an object or an array; the first element must be an object that is not an
  array. An element shares at least 50% of the first element's keys when at least half of
  those keys are among its own keys.
\<close>

definition is_plain_object :: "json \<Rightarrow> bool" where
  "is_plain_object v = (case v of JObj kvs \<Rightarrow> True | _ \<Rightarrow> False)"

definition shares_half_keys :: "json \<Rightarrow> json \<Rightarrow> bool" where
  "shares_half_keys first x =
     (is_object x \<and>
      length (Object_keys first)
        \<le> 2 * length (filter (\<lambda>k. k \<in> set (Object_keys x)) (Object_keys first)))"

definition qualifies :: "json list \<Rightarrow> bool" where
  "qualifies xs =
     (1 \<le> length xs \<and> is_plain_object (hd xs) \<and> 2 \<le> length (Object_keys (hd xs)) \<and>
      list_all (shares_half_keys (hd xs)) (take (min 5 (length xs)) xs))"

text \<open>A row of two columns, and a document that holds an array of two such rows at depth 9.\<close>

definition sample_row :: json where
  "sample_row = JObj [(''a'', JNum ''1''), (''b'', JNum ''2'')]"

definition deep_document :: json where
  "deep_document =
     JArr [JArr [JArr [JArr [JArr [JArr [JArr [JArr [JArr [JArr [sample_row, sample_row]]]]]]]]]]"

text \<open>A response flagged as tabular, with the given JSON body.\<close>

definition api_payload :: "json \<Rightarrow> payload" where
  "api_payload body =
     \<lparr>url = ''/api/rows'', http_method = ''GET'', data = body, hasTableData = True, timestamp = 0\<rparr>"

text \<open>
  A DOM scrape completes with a table when the content script answers with success; it is
  asked only when the active tab shows a page of the Clay application.
\<close>

definition scraped_table :: "(string + scrape_result option) \<Rightarrow> table option" where
  "scraped_table answer =
     (case answer of
        Inr (Some (ScrapeSuccess hs rs m)) \<Rightarrow> Some \<lparr>headers = hs, rows = rs\<rparr>
      | _ \<Rightarrow> None)"

definition on_clay_page :: "string option option \<Rightarrow> bool" where
  "on_clay_page tab =
     (case tab of
        Some (Some u) \<Rightarrow> u \<noteq> [] \<and> String_includes u ''app.clay.com''
      | _ \<Rightarrow> False)"

definition clay_url :: string where
  "clay_url = ''https://app.clay.com/t''"

text \<open>
  Reading the CSV text back, as the specification describes it: strip the byte order mark,
  split into lines at CRLF and into fields at commas, unquote each field (drop the enclosing
  quotes, halve the doubled quotes); the first line gives the headers. Every field is
  quoted, so the separators are the CRLFs and the commas between the fields: the splitting
  passes over what lies inside a quoted field (after an odd number of double quotes). A
  line without any character has no field.
\<close>

fun split_commas :: "bool \<Rightarrow> string \<Rightarrow> string \<Rightarrow> string list" where
  "split_commas inq cur [] = [cur]"
| "split_commas inq cur (c # cs) =
     (if c = CHR '','' \<and> \<not> inq then cur # split_commas False [] cs
      else split_commas (if c = dquote then \<not> inq else inq) (cur @ [c]) cs)"

fun split_lines :: "bool \<Rightarrow> string \<Rightarrow> string \<Rightarrow> string list" where
  "split_lines inq cur [] = [cur]"
| "split_lines inq cur [c] = [cur @ [c]]"
| "split_lines inq cur (c # d # cs) =
     (if c = CR \<and> d = LF \<and> \<not> inq then cur # split_lines False [] cs
      else split_lines (if c = dquote then \<not> inq else inq) (cur @ [c]) (d # cs))"

fun halve_quotes :: "string \<Rightarrow> string" where
  "halve_quotes (a # b # cs) =
     (if a = dquote \<and> b = dquote then dquote # halve_quotes cs else a # halve_quotes (b # cs))"
| "halve_quotes cs = cs"

definition unquote :: "string \<Rightarrow> string" where
  "unquote field = halve_quotes (butlast (tl field))"

definition read_csv :: "string \<Rightarrow> table option" where
  "read_csv content =
     (if take 3 content = BOM then
        (case map (\<lambda>line. if line = [] then [] else map unquote (split_commas False [] line))
                (split_lines False [] (drop 3 content)) of
           [] \<Rightarrow> None
         | hs # rs \<Rightarrow> Some \<lparr>headers = hs, rows = rs\<rparr>)
      else None)"

text \<open>A line of the output: the escaped fields joined by commas.\<close>

definition csv_line :: "string option list \<Rightarrow> string" where
  "csv_line vs = join '','' (map escape vs)"

text \<open>No object inside the value has an own property named \<open>toString\<close>.\<close>

fun no_toString :: "json \<Rightarrow> bool" where
  "no_toString (JArr xs) = list_all no_toString xs"
| "no_toString (JObj kvs) =
     (''toString'' \<notin> set (map fst kvs) \<and> list_all (\<lambda>(k, v). no_toString v) kvs)"
| "no_toString v = True"

text \<open>
  The ordered union of key lists: every key once, at the place of its first occurrence. The
  keys an element contributes are its own keys when it is an object, none otherwise.
\<close>

definition first_occurrences :: "'a list \<Rightarrow> 'a list" where
  "first_occurrences xs = rev (remdups (rev xs))"

definition keys_of :: "json \<Rightarrow> string list" where
  "keys_of item = (if is_object item then Object_keys item else [])"

section \<open>Row selection\<close>

lemma filter_between_upt:
  "filter (\<lambda>i. a \<le> int i \<and> int i < b) [0..<n] = [nat a..<min (nat b) n]"
proof (induction n)
  case 0
  show ?case by simp
next
  case (Suc n)
  show ?case
  proof (cases "a \<le> int n \<and> int n < b")
    case True
    then have "min (nat b) (Suc n) = Suc n" "min (nat b) n = n" "nat a \<le> n"
      by auto
    then show ?thesis
      using True Suc by simp
  next
    case False
    then have "[nat a..<min (nat b) (Suc n)] = [nat a..<min (nat b) n]"
      by (auto simp: min_def)
    then show ?thesis
      using False Suc by simp
  qed
qed

lemma map_nth_upt: "u \<le> length xs \<Longrightarrow> map (\<lambda>i. xs ! i) [l..<u] = take (u - l) (drop l xs)"
  by (rule nth_equalityI) (auto simp: min_def)

lemma zero_based_slice_take_drop:
  "zero_based_slice xs a b = take (min (nat b) (length xs) - nat a) (drop (nat a) xs)"
  by (simp add: zero_based_slice_def filter_between_upt map_nth_upt)

lemma slice_zero_based_slice:
  "slice xs a b = zero_based_slice xs (from_end xs a) (from_end xs b)"
proof -
  define k where "k = (if a < 0 then max (int (length xs) + a) 0 else min a (int (length xs)))"
  define final where "final = (if b < 0 then max (int (length xs) + b) 0 else min b (int (length xs)))"
  have "0 \<le> k" and "0 \<le> final"
    by (auto simp: k_def final_def)
  then have "nat (max (final - k) 0) = nat final - nat k"
    by arith
  then have s: "slice xs a b = take (nat final - nat k) (drop (nat k) xs)"
    unfolding slice_def Let_def k_def [symmetric] final_def [symmetric] by simp
  have f: "nat final = min (nat (from_end xs b)) (length xs)"
    by (auto simp: final_def from_end_def)
  show ?thesis
  proof (cases "a \<le> int (length xs)")
    case True
    then have "nat k = nat (from_end xs a)"
      by (auto simp: k_def from_end_def)
    then show ?thesis
      by (simp add: s f zero_based_slice_take_drop)
  next
    case False
    then have "length xs \<le> nat k" and "length xs \<le> nat (from_end xs a)"
      by (auto simp: k_def from_end_def)
    then show ?thesis
      by (simp add: s zero_based_slice_take_drop)
  qed
qed

lemma slice_from_end:
  "slice xs (- 1) b = (if xs \<noteq> [] \<and> int (length xs) \<le> b then [last xs] else [])"
proof (cases "xs = []")
  case True
  then show ?thesis by (simp add: slice_def)
next
  case False
  then have l: "0 < length xs" by simp
  have d: "drop (length xs - 1) xs = [last xs]"
    using False by (metis append_butlast_last_id append_eq_conv_conj length_butlast)
  have k: "nat (max (int (length xs) + - 1) 0) = length xs - 1"
    using l by simp
  show ?thesis
  proof (cases "int (length xs) \<le> b")
    case True
    then have "min b (int (length xs)) - max (int (length xs) + - 1) 0 = 1"
      using l by simp
    then show ?thesis
      using True False d k l by (simp add: slice_def Let_def)
  next
    case False2: False
    then have "(if b < 0 then max (int (length xs) + b) 0 else min b (int (length xs)))
                 - max (int (length xs) + - 1) 0 \<le> 0"
      using l by auto
    then show ?thesis
      using False2 by (simp add: slice_def Let_def)
  qed
qed

text \<open>
  Claim C6, as amended. Without a range \<^verbatim>\<open>applyRange\<close> returns all rows. With a range it
  returns \<^verbatim>\<open>rows.slice(start - 1, end)\<close>: the rows at the zero-based positions between the two
  bounds that exist, where a bound that is negative is counted from the end of the rows.
  For a start of at least 1 and an end of at least 0 these are exactly the rows at the
  positions \<open>start - 1 \<le> i < end\<close> that exist, with nothing clamped or rejected: a range
  that reaches past the rows, or whose start exceeds its end, gives the shorter or empty
  slice. For a start of 0 the first bound is \<open>-1\<close>, the position of the last row: the result
  is the last row alone when the end reaches it, and no row otherwise. For ten rows, the
  range 3 to 5 gives the third, fourth and fifth row, and the range 5 to 5 gives the fifth
  row alone.
\<close>

theorem applyRange_slice:
  "applyRange rs None = rs \<and>
   applyRange rs (Some rg)
     = zero_based_slice rs (from_end rs (range_start rg - 1)) (from_end rs (range_end rg)) \<and>
   (1 \<le> range_start rg \<and> 0 \<le> range_end rg \<longrightarrow>
      applyRange rs (Some rg) = zero_based_slice rs (range_start rg - 1) (range_end rg)) \<and>
   (range_start rg = 0 \<longrightarrow>
      applyRange rs (Some rg)
        = (if rs \<noteq> [] \<and> int (length rs) \<le> range_end rg then [last rs] else [])) \<and>
   applyRange [r1, r2, r3, r4, r5, r6, r7, r8, r9, r10] None
     = [r1, r2, r3, r4, r5, r6, r7, r8, r9, r10] \<and>
   applyRange [r1, r2, r3, r4, r5, r6, r7, r8, r9, r10] (Some \<lparr>range_start = 3, range_end = 5\<rparr>)
     = [r3, r4, r5] \<and>
   applyRange [r1, r2, r3, r4, r5, r6, r7, r8, r9, r10] (Some \<lparr>range_start = 5, range_end = 5\<rparr>)
     = [r5]"
proof (intro conjI impI)
  show "applyRange rs None = rs"
    by (simp add: applyRange_def)
  show "applyRange rs (Some rg)
     = zero_based_slice rs (from_end rs (range_start rg - 1)) (from_end rs (range_end rg))"
    by (simp add: applyRange_def slice_zero_based_slice)
  show "applyRange rs (Some rg) = zero_based_slice rs (range_start rg - 1) (range_end rg)"
    if "1 \<le> range_start rg \<and> 0 \<le> range_end rg"
    using that by (simp add: applyRange_def slice_zero_based_slice from_end_def)
  show "applyRange rs (Some rg)
        = (if rs \<noteq> [] \<and> int (length rs) \<le> range_end rg then [last rs] else [])"
    if "range_start rg = 0"
    using that slice_from_end [of rs "range_end rg"] by (simp add: applyRange_def)
qed (simp_all add: applyRange_def slice_def)

theorem applyRange_slice_witness:
  "applyRange [''a'', ''b'', ''c''] (Some \<lparr>range_start = 2, range_end = 7\<rparr>) = [''b'', ''c''] \<and>
   applyRange [''a'', ''b'', ''c''] (Some \<lparr>range_start = 0, range_end = 3\<rparr>) = [''c''] \<and>
   applyRange [''a'', ''b'', ''c''] (Some \<lparr>range_start = 0, range_end = 2\<rparr>) = []"
  using applyRange_slice
    [where rs = "[''a'', ''b'', ''c'']" and rg = "\<lparr>range_start = 2, range_end = 7\<rparr>",
     THEN conjunct2, THEN conjunct2, THEN conjunct1]
    applyRange_slice
    [where rs = "[''a'', ''b'', ''c'']" and rg = "\<lparr>range_start = 0, range_end = 3\<rparr>",
     THEN conjunct2, THEN conjunct2, THEN conjunct2, THEN conjunct1]
    applyRange_slice
    [where rs = "[''a'', ''b'', ''c'']" and rg = "\<lparr>range_start = 0, range_end = 2\<rparr>",
     THEN conjunct2, THEN conjunct2, THEN conjunct2, THEN conjunct1]
  by (simp add: zero_based_slice_def)

text \<open>
  Claim C6 as stated fails for a start of 0: the zero-based slice \<open>[-1, 3)\<close> of three rows
  holds the three rows, and \<^verbatim>\<open>applyRange\<close> returns the last row alone.
\<close>

theorem applyRange_start_zero_counterexample:
  "applyRange [''a'', ''b'', ''c''] (Some \<lparr>range_start = 0, range_end = 3\<rparr>) = [''c''] \<and>
   zero_based_slice [''a'', ''b'', ''c''] (0 - 1) 3 = [''a'', ''b'', ''c'']"
  by (simp add: applyRange_def slice_def zero_based_slice_def)

section \<open>Horizontal positions of the traversal\<close>

subsection \<open>Rounding to a double\<close>

lemma round_ties_even_error: "\<bar>of_int (round_ties_even z) - z\<bar> \<le> 1 / 2"
  unfolding round_ties_even_def Let_def by (auto; linarith)

lemma round_ties_even_nonneg: "0 \<le> z \<Longrightarrow> 0 \<le> round_ties_even z"
  unfolding round_ties_even_def Let_def by (auto; linarith)

lemma binary_exponent_bounds:
  assumes "0 < x"
  shows "2 powi binary_exponent x \<le> x \<and> x < 2 powi (binary_exponent x + 1)"
proof (cases "1 \<le> x")
  case True
  define n where "n = \<lfloor>x\<rfloor>"
  have n: "0 < n"
    using True unfolding n_def by linarith
  have b: "2 ^ nat (bitlen n - 1) \<le> n" "n < 2 ^ nat (bitlen n)"
    using bitlen_bounds [OF n] by simp_all
  have k: "1 \<le> bitlen n"
    using n bitlen_eq_zero_iff [of n] bitlen_nonneg [of n] by linarith
  have e: "binary_exponent x = bitlen n - 1"
    using True by (simp add: binary_exponent_def n_def)
  have "(2::real) ^ nat (bitlen n - 1) \<le> of_int n"
    using b(1) by (metis of_int_le_iff of_int_numeral of_int_power)
  also have "of_int n \<le> x"
    unfolding n_def by simp
  finally have lo: "2 powi (bitlen n - 1) \<le> x"
    using k by (simp add: power_int_def)
  have "n + 1 \<le> 2 ^ nat (bitlen n)"
    using b(2) by simp
  then have "(of_int (n + 1) :: real) \<le> 2 ^ nat (bitlen n)"
    by (metis of_int_le_iff of_int_numeral of_int_power)
  moreover have "x < of_int (n + 1)"
    unfolding n_def by linarith
  ultimately have "x < 2 ^ nat (bitlen n)"
    by linarith
  then have hi: "x < 2 powi (bitlen n - 1 + 1)"
    using k by (simp add: power_int_def)
  show ?thesis
    unfolding e using lo hi by simp
next
  case False
  define y where "y = 1 / x"
  define n where "n = \<lfloor>y\<rfloor>"
  have y: "1 < y"
    using False assms by (simp add: y_def)
  have n: "0 < n"
    using y unfolding n_def by linarith
  define k where "k = bitlen n"
  have b: "2 ^ nat (k - 1) \<le> n" "n < 2 ^ nat k"
    using bitlen_bounds [OF n] by (simp_all add: k_def)
  have k: "1 \<le> k"
    using n bitlen_eq_zero_iff [of n] bitlen_nonneg [of n] unfolding k_def by linarith
  have "(2::real) ^ nat (k - 1) \<le> of_int n"
    using b(1) by (metis of_int_le_iff of_int_numeral of_int_power)
  also have "of_int n \<le> y"
    unfolding n_def by simp
  finally have ylo: "2 ^ nat (k - 1) \<le> y" .
  have "n + 1 \<le> 2 ^ nat k"
    using b(2) by simp
  then have "(of_int (n + 1) :: real) \<le> 2 ^ nat k"
    by (metis of_int_le_iff of_int_numeral of_int_power)
  moreover have "y < of_int (n + 1)"
    unfolding n_def by linarith
  ultimately have yhi: "y < 2 ^ nat k"
    by linarith
  have xhi: "x * 2 ^ nat (k - 1) \<le> 1"
    using ylo assms by (simp add: y_def field_simps)
  have xlo: "1 < x * 2 ^ nat k"
    using yhi assms by (simp add: y_def field_simps)
  have p1: "2 powi (1 - k) = 1 / (2::real) ^ nat (k - 1)"
    using k by (simp add: power_int_def inverse_eq_divide power_one_over [symmetric] nat_diff_distrib)
  have p2: "2 powi (- k) = 1 / (2::real) ^ nat k"
    using k by (simp add: power_int_def inverse_eq_divide power_one_over [symmetric])
  have p3: "(2::real) ^ nat k = 2 * 2 ^ nat (k - 1)"
    using k by (metis Suc_nat_eq_nat_zadd1 add.commute diff_add_cancel diff_ge_0_iff_ge power_Suc)
  show ?thesis
  proof (cases "x * 2 ^ nat (k - 1) = 1")
    case True
    then have e: "binary_exponent x = 1 - k"
      using False by (simp add: binary_exponent_def Let_def y_def n_def k_def)
    have x: "x = 1 / 2 ^ nat (k - 1)"
      using True by (simp add: field_simps)
    have "2 powi (1 - k + 1) = 2 * (2::real) powi (1 - k)"
      using power_int_add [of "2::real" "1 - k" 1] by simp
    moreover have "1 / (2::real) ^ nat (k - 1) < 2 / 2 ^ nat (k - 1)"
      by (simp add: divide_strict_right_mono)
    ultimately show ?thesis
      unfolding e using x p1 by simp
  next
    case ne: False
    then have e: "binary_exponent x = - k"
      using False by (simp add: binary_exponent_def Let_def y_def n_def k_def)
    have "x * 2 ^ nat (k - 1) < 1"
      using xhi ne by simp
    then have "x < 1 / 2 ^ nat (k - 1)"
      by (simp add: field_simps)
    then have "x < 2 powi (- k + 1)"
      using p1 by (simp add: add.commute)
    moreover have "1 / 2 ^ nat k < x"
      using xlo by (simp add: field_simps)
    then have "2 powi (- k) < x"
      by (simp only: p2)
    ultimately show ?thesis
      unfolding e by simp
  qed
qed

lemma double_of_half_ulp:
  assumes "x \<noteq> 0"
  shows "\<bar>double_of x - x\<bar> \<le> 2 powi (binary_exponent \<bar>x\<bar> - 53)"
proof -
  define e where "e = binary_exponent \<bar>x\<bar>"
  define z where "z = \<bar>x\<bar> * 2 powi (52 - e)"
  have d: "double_of x = sgn x * of_int (round_ties_even z) * 2 powi (e - 52)"
    using assms by (simp add: double_of_def Let_def e_def z_def)
  have x: "x = sgn x * z * 2 powi (e - 52)"
  proof -
    have "2 powi (52 - e) * 2 powi (e - 52) = (1::real)"
      using power_int_add [of "2::real" "52 - e" "e - 52"] by simp
    then have "z * 2 powi (e - 52) = \<bar>x\<bar>"
      by (simp add: z_def mult.assoc)
    then show ?thesis
      by (simp add: mult.assoc sgn_mult_abs flip: abs_sgn)
  qed
  have "double_of x - x = sgn x * (of_int (round_ties_even z) - z) * 2 powi (e - 52)"
    by (subst (2) x) (simp add: d algebra_simps)
  then have "\<bar>double_of x - x\<bar> = \<bar>of_int (round_ties_even z) - z\<bar> * 2 powi (e - 52)"
    using assms by (simp add: abs_mult abs_sgn_eq)
  also have "\<dots> \<le> (1 / 2) * 2 powi (e - 52)"
    by (intro mult_right_mono round_ties_even_error) simp
  also have "\<dots> = 2 powi (e - 53)"
    using power_int_add [of "2::real" "e - 52" "- 1"] by simp
  finally show ?thesis
    unfolding e_def .
qed

lemma double_of_examples:
  "double_of 0.1 = 3602879701896397 / 2 ^ 55 \<and>
   double_of 0.2 = 3602879701896397 / 2 ^ 54 \<and>
   double_of (double_of 0.1 + double_of 0.2) = 1351079888211149 / 2 ^ 52 \<and>
   double_of (1 / 3) = 6004799503160661 / 2 ^ 54 \<and>
   double_of (- (1 / 3)) = - (6004799503160661 / 2 ^ 54) \<and>
   double_of (2 ^ 53 + 1) = 2 ^ 53 \<and>
   double_of (2 ^ 53 + 3) = 2 ^ 53 + 4 \<and>
   double_of 300 = 300"
  by code_simp

lemma binary_exponent_range:
  assumes "1 \<le> y" and "y < 2 ^ 33"
  shows "0 \<le> binary_exponent y \<and> binary_exponent y \<le> 32"
proof -
  have p: "0 < \<lfloor>y\<rfloor>"
    using assms(1) by linarith
  have "\<lfloor>y\<rfloor> < 2 ^ 33"
    using assms(2) by (simp add: floor_less_iff)
  then have "bitlen \<lfloor>y\<rfloor> \<le> 33"
    using bitlen_le_iff_power [of "\<lfloor>y\<rfloor>" 33] by simp
  moreover have "1 \<le> bitlen \<lfloor>y\<rfloor>"
    using p bitlen_eq_zero_iff [of "\<lfloor>y\<rfloor>"] bitlen_nonneg [of "\<lfloor>y\<rfloor>"] by linarith
  ultimately show ?thesis
    using assms(1) by (simp add: binary_exponent_def)
qed

lemma double_of_error:
  assumes "1 \<le> y" and "y < 2 ^ 33"
  shows "\<bar>double_of y - y\<bar> \<le> 1 / 2 ^ 20"
proof -
  define e where "e = binary_exponent y"
  define p where "p = nat (52 - e)"
  have e: "0 \<le> e" "e \<le> 32"
    using binary_exponent_range [OF assms] by (simp_all add: e_def)
  have p: "20 \<le> p" and pe: "52 - e = int p" "e - 52 = - int p"
    using e by (simp_all add: p_def)
  have y: "y \<noteq> 0" "\<bar>y\<bar> = y" "sgn y = 1"
    using assms(1) by simp_all
  have d: "double_of y = of_int (round_ties_even (y * 2 ^ p)) / 2 ^ p"
    unfolding double_of_def Let_def y e_def [symmetric] pe
    using y(1) by (simp add: power_int_minus field_simps)
  have "\<bar>of_int (round_ties_even (y * 2 ^ p)) - y * 2 ^ p\<bar> \<le> 1 / 2"
    by (rule round_ties_even_error)
  then have "\<bar>of_int (round_ties_even (y * 2 ^ p)) / 2 ^ p - y\<bar> \<le> (1 / 2) / 2 ^ p"
    by (simp add: field_simps abs_le_iff)
  also have "\<dots> \<le> 1 / 2 ^ 20"
  proof -
    have "(2::real) ^ 20 \<le> 2 ^ p"
      using p by (intro power_increasing) simp_all
    then have "1 / (2::real) ^ p \<le> 1 / 2 ^ 20"
      by (intro divide_left_mono) simp_all
    then show ?thesis by simp
  qed
  finally show ?thesis
    unfolding d .
qed

lemma double_of_near:
  assumes "1 \<le> y" and "y < 2 ^ 33"
  shows "y - 1 \<le> double_of y" and "double_of y \<le> y + 1"
proof -
  have "(1::real) / 2 ^ 20 \<le> 1"
    by simp
  then have "\<bar>double_of y - y\<bar> \<le> 1"
    using double_of_error [OF assms] by (rule order_trans [rotated])
  then show "y - 1 \<le> double_of y" and "double_of y \<le> y + 1"
    by linarith+
qed

lemma double_of_nonpos: "x \<le> 0 \<Longrightarrow> double_of x \<le> 0"
proof -
  assume x: "x \<le> 0"
  show ?thesis
  proof (cases "x = 0")
    case True
    then show ?thesis by (simp add: double_of_def)
  next
    case False
    then have s: "sgn x = - 1" using x by simp
    have "0 \<le> round_ties_even (\<bar>x\<bar> * 2 powi (52 - binary_exponent \<bar>x\<bar>))"
      by (rule round_ties_even_nonneg) simp
    then have "0 \<le> real_of_int (round_ties_even (\<bar>x\<bar> * 2 powi (52 - binary_exponent \<bar>x\<bar>)))
                 * 2 powi (binary_exponent \<bar>x\<bar> - 52)"
      by simp
    then show ?thesis
      using False unfolding double_of_def Let_def s by simp
  qed
qed

lemma double_of_six_tenths: "double_of 0.6 = 5404319552844595 / 9007199254740992"
  by code_simp

lemma double_of_six_tenths_fixed:
  "double_of (5404319552844595 / 9007199254740992) = 5404319552844595 / 9007199254740992"
  by code_simp

subsection \<open>The positions\<close>

lemma horizontalStep_bounds:
  assumes "clientWidth < 2 ^ 31"
  shows "300 \<le> horizontalStep clientWidth \<and> horizontalStep clientWidth \<le> 2 ^ 31"
proof -
  let ?c = "5404319552844595 / 9007199254740992 :: real"
  have "double_of (of_int clientWidth * ?c) \<le> 2 ^ 31"
  proof -
    consider "clientWidth \<le> 0" | "clientWidth = 1" | "2 \<le> clientWidth"
      by linarith
    then show ?thesis
    proof cases
      case 1
      then have "of_int clientWidth * ?c \<le> 0"
        by (simp add: mult_le_0_iff)
      then have "double_of (of_int clientWidth * ?c) \<le> 0"
        by (rule double_of_nonpos)
      then show ?thesis by simp
    next
      case 2
      then show ?thesis
        by (simp add: double_of_six_tenths_fixed)
    next
      case 3
      define X where "X = of_int clientWidth * ?c"
      have "2 \<le> (of_int clientWidth :: real)"
        using 3 by simp
      then have lo: "1 \<le> X"
        by (simp add: X_def)
      have "(of_int clientWidth :: real) \<le> 2 ^ 31"
        using assms by (metis less_imp_le of_int_le_numeral_power_cancel_iff)
      then have hi: "X \<le> 2 ^ 31 * (61 / 100)"
        by (simp add: X_def)
      then have "X < 2 ^ 33"
        by simp
      then have "double_of X \<le> X + 1"
        using lo by (intro double_of_near)
      then have "double_of X \<le> 2 ^ 31"
        using hi by simp
      then show ?thesis
        by (simp only: X_def)
    qed
  qed
  then show ?thesis
    unfolding horizontalStep_def double_of_six_tenths by simp
qed

lemma hPos_after_first: "hPos_after s (double_of (h + s)) k = hPos_after s h (Suc k)"
  by (induction k) simp_all

lemma repeated_sum_hPos_after: "repeated_sum s (Suc k) = hPos_after s s k"
  by (induction k) simp_all

lemma hLoop_returns:
  assumes "300 \<le> s" and "s \<le> 2 ^ 31" and "m < 2 ^ 32" and "0 \<le> h"
  shows "\<exists>n. hLoop s h m = Some (map (hPos_after s h) [0..<n]) \<and>
             (\<forall>k<n. hPos_after s h k < m) \<and>
             \<not> hPos_after s h n < m \<and>
             (\<forall>k<n. hPos_after s h k + 299 \<le> hPos_after s h (Suc k))"
  using assms(4)
proof (induction "nat \<lceil>(m - h) / 299\<rceil>" arbitrary: h rule: less_induct)
  case less
  define h' where "h' = double_of (h + s)"
  have sw: "hPos_after s h' k = hPos_after s h (Suc k)" for k
    unfolding h'_def by (rule hPos_after_first)
  show ?case
  proof (cases "h < m")
    case False
    then have "hLoop s h m = Some []"
      by (subst hLoop.simps) simp
    then show ?thesis
      using False by (intro exI [of _ 0]) simp
  next
    case True
    have r: "1 \<le> h + s" "h + s < 2 ^ 33"
      using True assms(1,2,3) less.prems by simp_all
    have up: "h + 299 \<le> h'"
      using double_of_near(1) [OF r] assms(1) by (simp add: h'_def)
    then have pos: "0 \<le> h'"
      using less.prems by simp
    have "(m - h') / 299 \<le> (m - h) / 299 - 1"
      using up by (simp add: field_simps)
    then have "\<lceil>(m - h') / 299\<rceil> \<le> \<lceil>(m - h) / 299\<rceil> - 1"
      by (metis ceiling_mono ceiling_diff_one)
    moreover have "0 < \<lceil>(m - h) / 299\<rceil>"
      using True by simp
    ultimately have "nat \<lceil>(m - h') / 299\<rceil> < nat \<lceil>(m - h) / 299\<rceil>"
      by simp
    from less.hyps [OF this pos] obtain n where
      l: "hLoop s h' m = Some (map (hPos_after s h') [0..<n])"
      and a: "\<forall>k<n. hPos_after s h' k < m"
      and b: "\<not> hPos_after s h' n < m"
      and c: "\<forall>k<n. hPos_after s h' k + 299 \<le> hPos_after s h' (Suc k)"
      by blast
    have "hLoop s h m = Some (h # map (hPos_after s h') [0..<n])"
      using True l by (subst hLoop.simps) (simp add: h'_def)
    also have "h # map (hPos_after s h') [0..<n] = map (hPos_after s h) [0..<Suc n]"
    proof -
      have "map (hPos_after s h') [0..<n] = map (hPos_after s h) [Suc 0..<Suc n]"
        unfolding map_Suc_upt [symmetric] by (simp add: sw del: hPos_after.simps)
      then show ?thesis
        by (simp add: upt_rec [of 0 "Suc n"] del: upt_Suc hPos_after.simps(2))
    qed
    finally have 1: "hLoop s h m = Some (map (hPos_after s h) [0..<Suc n])" .
    have 2: "\<forall>k<Suc n. hPos_after s h k < m"
    proof (intro allI impI)
      fix k assume "k < Suc n"
      then show "hPos_after s h k < m"
        using True a [unfolded sw] by (cases k) (simp_all del: hPos_after.simps(2))
    qed
    have 3: "\<not> hPos_after s h (Suc n) < m"
      using b unfolding sw .
    have 4: "\<forall>k<Suc n. hPos_after s h k + 299 \<le> hPos_after s h (Suc k)"
    proof (intro allI impI)
      fix k assume k: "k < Suc n"
      show "hPos_after s h k + 299 \<le> hPos_after s h (Suc k)"
      proof (cases k)
        case 0
        then show ?thesis
          using up by (simp add: h'_def)
      next
        case (Suc j)
        then show ?thesis
          using k c [unfolded sw] by (simp del: hPos_after.simps(2))
      qed
    qed
    show ?thesis
      using 1 2 3 4 by (intro exI [of _ "Suc n"]) blast
  qed
qed

text \<open>
  Claim C9, as amended. For a viewport width and a \<^verbatim>\<open>maxScrollLeft\<close> in the range of the DOM's
  integers, the list of horizontal offsets is 0 alone when \<open>maxScrollLeft \<le> 10\<close>. Otherwise
  it is 0, followed by the sums \<open>step\<close>, \<open>step + step\<close>, \<open>step + step + step\<close>, ... as long as they
  are strictly less than \<open>maxScrollLeft\<close>, followed by \<open>maxScrollLeft\<close> itself, where the step
  is \<open>max(0.6 \<sqdot> width, 300)\<close> and the literal, the product and every addition are rounded to
  a double. The sums increase, each by at least 299, so the list is in increasing order and
  the loop ends.
\<close>

theorem hPositions_offsets:
  assumes "clientWidth < 2 ^ 31" and "maxScrollLeft < 2 ^ 32"
  shows "(maxScrollLeft \<le> 10 \<longrightarrow> hPositions clientWidth maxScrollLeft = Some [0]) \<and>
         (10 < maxScrollLeft \<longrightarrow>
            (\<exists>n. hPositions clientWidth maxScrollLeft
                   = Some ([0]
                           @ map (repeated_sum (max (double_of (of_int clientWidth * double_of 0.6)) 300))
                               [1..<Suc n]
                           @ [of_int maxScrollLeft]) \<and>
                 (\<forall>k. 1 \<le> k \<and> k \<le> n \<longrightarrow>
                    repeated_sum (max (double_of (of_int clientWidth * double_of 0.6)) 300) (k - 1) + 299
                      \<le> repeated_sum (max (double_of (of_int clientWidth * double_of 0.6)) 300) k \<and>
                    repeated_sum (max (double_of (of_int clientWidth * double_of 0.6)) 300) k
                      < of_int maxScrollLeft) \<and>
                 \<not> repeated_sum (max (double_of (of_int clientWidth * double_of 0.6)) 300) (Suc n)
                     < of_int maxScrollLeft))"
proof (intro conjI impI)
  assume "maxScrollLeft \<le> 10"
  then show "hPositions clientWidth maxScrollLeft = Some [0]"
    by (simp add: hPositions_def)
next
  assume big: "10 < maxScrollLeft"
  define s where "s = max (double_of (of_int clientWidth * double_of 0.6)) 300"
  define m :: real where "m = of_int maxScrollLeft"
  have hs: "horizontalStep clientWidth = s"
    by (simp only: horizontalStep_def s_def)
  have s: "300 \<le> s" "s \<le> 2 ^ 31"
    using horizontalStep_bounds [OF assms(1)] by (simp_all only: hs)
  have m: "m < 2 ^ 32"
    unfolding m_def using assms(2) by (metis of_int_less_numeral_power_cancel_iff)
  from hLoop_returns [OF s m, of s] s(1) obtain n where
    l: "hLoop s s m = Some (map (hPos_after s s) [0..<n])"
    and a: "\<forall>k<n. hPos_after s s k < m"
    and b: "\<not> hPos_after s s n < m"
    and c: "\<forall>k<n. hPos_after s s k + 299 \<le> hPos_after s s (Suc k)"
    by auto
  have r: "hPos_after s s k = repeated_sum s (Suc k)" for k
    by (rule repeated_sum_hPos_after [symmetric])
  have "map (repeated_sum s) [Suc 0..<Suc n] = map (repeated_sum s) (map Suc [0..<n])"
    by (simp only: map_Suc_upt)
  also have "\<dots> = map (hPos_after s s) [0..<n]"
    by (simp only: map_map comp_def r [symmetric])
  finally have "map (hPos_after s s) [0..<n] = map (repeated_sum s) [1..<Suc n]"
    by (simp only: One_nat_def)
  then have 1: "hPositions clientWidth maxScrollLeft
                  = Some ([0] @ map (repeated_sum s) [1..<Suc n] @ [m])"
    using big l by (simp add: hPositions_def hs m_def del: repeated_sum.simps upt_Suc)
  have 2: "\<forall>k. 1 \<le> k \<and> k \<le> n \<longrightarrow>
             repeated_sum s (k - 1) + 299 \<le> repeated_sum s k \<and> repeated_sum s k < m"
  proof (intro allI impI)
    fix k
    assume k: "1 \<le> k \<and> k \<le> n"
    then obtain j where j: "k = Suc j" and jn: "j < n"
      by (cases k) auto
    have "repeated_sum s j + 299 \<le> repeated_sum s (Suc j)"
    proof (cases j)
      case 0
      then show ?thesis using s(1) by simp
    next
      case (Suc i)
      have "\<forall>k<n. repeated_sum s (Suc k) + 299 \<le> repeated_sum s (Suc (Suc k))"
        using c unfolding r .
      then show ?thesis
        using Suc jn by (simp del: repeated_sum.simps)
    qed
    moreover have "repeated_sum s (Suc j) < m"
      using a jn by (simp add: r del: repeated_sum.simps)
    ultimately show "repeated_sum s (k - 1) + 299 \<le> repeated_sum s k \<and> repeated_sum s k < m"
      by (simp add: j del: repeated_sum.simps)
  qed
  have 3: "\<not> repeated_sum s (Suc n) < m"
    using b by (simp add: r del: repeated_sum.simps)
  show "\<exists>n. hPositions clientWidth maxScrollLeft
                   = Some ([0]
                           @ map (repeated_sum (max (double_of (of_int clientWidth * double_of 0.6)) 300))
                               [1..<Suc n]
                           @ [of_int maxScrollLeft]) \<and>
                 (\<forall>k. 1 \<le> k \<and> k \<le> n \<longrightarrow>
                    repeated_sum (max (double_of (of_int clientWidth * double_of 0.6)) 300) (k - 1) + 299
                      \<le> repeated_sum (max (double_of (of_int clientWidth * double_of 0.6)) 300) k \<and>
                    repeated_sum (max (double_of (of_int clientWidth * double_of 0.6)) 300) k
                      < of_int maxScrollLeft) \<and>
                 \<not> repeated_sum (max (double_of (of_int clientWidth * double_of 0.6)) 300) (Suc n)
                     < of_int maxScrollLeft"
    unfolding s_def [symmetric] m_def [symmetric] using 1 2 3 by blast
qed

lemma step_800: "max (double_of (of_int 800 * double_of 0.6)) 300 = 480"
  by code_simp

lemma sums_480:
  "repeated_sum 480 (Suc 0) = 480 \<and> repeated_sum 480 (Suc (Suc 0)) = 960 \<and>
   repeated_sum 480 3 = 1440"
  by code_simp

theorem hPositions_offsets_witness:
  "(800::int) < 2 ^ 31 \<and> (1000::int) < 2 ^ 32 \<and> (10::int) < 1000 \<and>
   hPositions 800 1000 = Some [0, 480, 960, 1000]"
proof -
  from hPositions_offsets [of 800 1000] obtain n where
    l: "hPositions 800 1000 = Some ([0] @ map (repeated_sum 480) [1..<Suc n] @ [1000])"
    and a: "\<And>k. 1 \<le> k \<and> k \<le> n \<Longrightarrow> repeated_sum 480 k < 1000"
    and b: "\<not> repeated_sum 480 (Suc n) < 1000"
    unfolding step_800 by auto
  have "\<not> 3 \<le> n"
    using a [of 3] sums_480 by auto
  moreover have "n \<noteq> 0"
  proof
    assume "n = 0"
    then show False using b sums_480 by (simp del: repeated_sum.simps)
  qed
  moreover have "n \<noteq> Suc 0"
  proof
    assume "n = Suc 0"
    then show False using b sums_480 by (simp del: repeated_sum.simps)
  qed
  ultimately have n: "n = Suc (Suc 0)"
    by linarith
  have "map (repeated_sum 480) [1..<Suc (Suc (Suc 0))] = [480, 960]"
    using sums_480 by (simp add: upt_rec del: repeated_sum.simps)
  then show ?thesis
    using l unfolding n by simp
qed

text \<open>
  Claim C9 as stated fails: the sums are not the multiples of the step. For a viewport of
  width 501 and \<open>maxScrollLeft = 1503\<close> the step is the double below 300.6, and adding it five
  times gives the double below 1503, which is visited before 1503: seven offsets. In exact
  arithmetic the step is 300.6 and its fifth multiple is 1503, which is not below
  \<open>maxScrollLeft\<close>: six offsets.
\<close>

theorem hPositions_rounding_counterexample:
  "hPositions 501 1503
     = Some [0, 5288211124951449 / 17592186044416, 5288211124951449 / 8796093022208,
             3966158343713587 / 4398046511104, 5288211124951449 / 4398046511104,
             6610263906189311 / 4398046511104, 1503] \<and>
   exact_offsets 501 1503 = [0, 300.6, 601.2, 901.8, 1202.4, 1503]"
  by code_simp

section \<open>The capture batch\<close>

lemma apiResponses_handleApiCapture:
  "apiResponses (snd (handleApiCapture inherited p tab_url now st))
     = take 100 (if hasTableData p then p # apiResponses st else apiResponses st @ [p])"
proof -
  define rs where "rs = (if hasTableData p then p # apiResponses st else apiResponses st @ [p])"
  have t: "(if length rs > 100 then take 100 rs else rs) = take 100 rs"
    by simp
  show ?thesis
    unfolding handleApiCapture_def Let_def rs_def [symmetric] t
    by (simp split: sum.split option.split)
qed

lemma take_Cons_take: "take n (p # take n xs) = take n (p # xs)"
  by (cases n) (simp_all add: min_def)

lemma take_take_snoc: "take n (take n xs @ [p]) = take n (xs @ [p])"
  by (cases "n \<le> length xs") auto

lemma apiResponses_deliver_all:
  "apiResponses (deliver_all inherited evs)
     = take 100 (rev (filter hasTableData (map fst evs))
                 @ filter (\<lambda>p. \<not> hasTableData p) (map fst evs))"
proof (induction evs rule: rev_induct)
  case Nil
  show ?case by (simp add: deliver_all_def initial_store_def)
next
  case (snoc ev evs)
  obtain p tab_url now where ev: "ev = (p, tab_url, now)"
    by (cases ev) auto
  let ?T = "rev (filter hasTableData (map fst evs))"
  let ?N = "filter (\<lambda>p. \<not> hasTableData p) (map fst evs)"
  have step: "apiResponses (deliver_all inherited (evs @ [ev]))
          = take 100 (if hasTableData p then p # apiResponses (deliver_all inherited evs)
                      else apiResponses (deliver_all inherited evs) @ [p])"
    by (simp add: deliver_all_def deliver_def ev apiResponses_handleApiCapture)
  show ?case
  proof (cases "hasTableData p")
    case True
    have "apiResponses (deliver_all inherited (evs @ [ev])) = take 100 (p # take 100 (?T @ ?N))"
      using step True snoc.IH by simp
    also have "\<dots> = take 100 (p # ?T @ ?N)"
      by (rule take_Cons_take)
    finally show ?thesis
      using True by (simp add: ev)
  next
    case False
    have "apiResponses (deliver_all inherited (evs @ [ev])) = take 100 (take 100 (?T @ ?N) @ [p])"
      using step False snoc.IH by simp
    also have "\<dots> = take 100 ((?T @ ?N) @ [p])"
      by (rule take_take_snoc)
    finally show ?thesis
      using False by (simp add: ev)
  qed
qed

text \<open>
  Claim C8, as amended. After any append the batch holds at most 100 responses. After the
  responses of a session have arrived, the batch is the first 100 entries of: the tabular
  responses, newest first, followed by the non-tabular responses, oldest first. So entries
  are dropped from the tail: non-tabular responses before tabular ones; among non-tabular
  responses the newest is dropped first (one that arrives at a full batch is itself
  discarded); among tabular responses the oldest is dropped first.
\<close>

theorem batch_cap_and_eviction:
  "length (apiResponses (snd (handleApiCapture inherited p tab_url now st))) \<le> 100 \<and>
   length (apiResponses (deliver_all inherited evs)) \<le> 100 \<and>
   apiResponses (deliver_all inherited evs)
     = take 100 (rev (filter hasTableData (map fst evs))
                 @ filter (\<lambda>p. \<not> hasTableData p) (map fst evs))"
  by (simp add: apiResponses_handleApiCapture apiResponses_deliver_all)

theorem batch_cap_and_eviction_witness:
  "\<forall>inherited.
     apiResponses (deliver_all inherited
                     [(sample_response 0 False, None, 0), (sample_response 1 True, None, 1)])
       = [sample_response 1 True, sample_response 0 False]"
  using batch_cap_and_eviction
    [where evs = "[(sample_response 0 False, None, 0), (sample_response 1 True, None, 1)]"]
  by (simp add: sample_response_def)

text \<open>
  Claim C8 as stated fails: within the non-tabular tier eviction is not oldest first. Of 101
  non-tabular responses the oldest is still in the batch and the newest is not.
\<close>

theorem batch_eviction_counterexample:
  "\<forall>inherited.
     sample_response 0 False
       \<in> set (apiResponses (deliver_all inherited
                  (map (\<lambda>i. (sample_response i False, None, i)) [0..<101]))) \<and>
     sample_response 100 False
       \<notin> set (apiResponses (deliver_all inherited
                  (map (\<lambda>i. (sample_response i False, None, i)) [0..<101])))"
proof
  fix inherited :: members
  have nt: "\<not> hasTableData (sample_response i False)" for i
    by (simp add: sample_response_def)
  have "apiResponses (deliver_all inherited (map (\<lambda>i. (sample_response i False, None, i)) [0..<101]))
          = take 100 (map (\<lambda>i. sample_response i False) [0..<101])"
    unfolding apiResponses_deliver_all by (simp add: comp_def nt del: upt_Suc)
  also have "\<dots> = map (\<lambda>i. sample_response i False) [0..<100]"
    by (simp add: take_map del: upt_Suc)
  finally have eq: "set (apiResponses (deliver_all inherited (map (\<lambda>i. (sample_response i False, None, i)) [0..<101])))
          = (\<lambda>i. sample_response i False) ` {0..<100}"
    by (simp del: upt_Suc)
  have inj: "i = j" if "sample_response i False = sample_response j False" for i j
  proof -
    from that have "timestamp (sample_response i False) = timestamp (sample_response j False)"
      by simp
    then show ?thesis by (simp add: sample_response_def)
  qed
  have "sample_response 0 False \<in> (\<lambda>i. sample_response i False) ` {0..<100}"
    by (rule imageI) simp
  moreover have "sample_response 100 False \<notin> (\<lambda>i. sample_response i False) ` {0..<100}"
  proof
    assume "sample_response 100 False \<in> (\<lambda>i. sample_response i False) ` {0..<100}"
    then obtain i where "i < 100" and "sample_response 100 False = sample_response i False"
      by auto
    then show False using inj [of 100 i] by simp
  qed
  ultimately show "sample_response 0 False
       \<in> set (apiResponses (deliver_all inherited
                  (map (\<lambda>i. (sample_response i False, None, i)) [0..<101]))) \<and>
     sample_response 100 False
       \<notin> set (apiResponses (deliver_all inherited
                  (map (\<lambda>i. (sample_response i False, None, i)) [0..<101])))"
    unfolding eq by blast
qed

section \<open>Merging rows\<close>

lemma Map_get_Nil: "Map_get [] k = None"
  by (simp add: Map_get_def)

lemma Map_get_Cons: "Map_get ((k', v) # m) k = (if k = k' then Some v else Map_get m k)"
  by (simp add: Map_get_def)

lemma Map_get_absent: "k \<notin> fst ` set m \<Longrightarrow> Map_get m k = None"
  by (simp add: Map_get_def map_of_eq_None_iff)

lemma Map_get_SomeD: "Map_get m k = Some v \<Longrightarrow> (k, v) \<in> set m"
  by (simp add: Map_get_def map_of_SomeD)

lemma Map_has_get: "Map_has m k = (Map_get m k \<noteq> None)"
  by (simp add: Map_has_def Map_get_def)

lemma Map_get_Map_set: "Map_get (Map_set m k v) k' = (if k' = k then Some v else Map_get m k')"
  by (induction m) (auto simp: Map_get_Nil Map_get_Cons)

lemma Map_get_fill:
  "Map_get (fill (fid, val) c) f =
     (if f = fid \<and> val \<noteq> [] \<and> (Map_get c fid = None \<or> Map_get c fid = Some []) then Some val
      else Map_get c f)"
  by (auto simp: fill_def Map_get_Map_set Map_has_get)

lemma Map_get_fold_fill:
  "distinct (map fst inc) \<Longrightarrow>
   Map_get (fold fill inc c) f =
     (case Map_get inc f of
        None \<Rightarrow> Map_get c f
      | Some v \<Rightarrow> if v \<noteq> [] \<and> (Map_get c f = None \<or> Map_get c f = Some []) then Some v
                  else Map_get c f)"
proof (induction inc arbitrary: c)
  case Nil
  show ?case by (simp add: Map_get_Nil)
next
  case (Cons a inc)
  obtain fid val where a: "a = (fid, val)" by (cases a) auto
  from Cons.prems have d: "distinct (map fst inc)" and n: "fid \<notin> fst ` set inc"
    by (auto simp: a)
  have none: "Map_get inc fid = None"
    using n by (rule Map_get_absent)
  have step: "Map_get (fold fill (a # inc) c) f =
     (case Map_get inc f of
        None \<Rightarrow> Map_get (fill (fid, val) c) f
      | Some v \<Rightarrow>
          if v \<noteq> [] \<and> (Map_get (fill (fid, val) c) f = None \<or> Map_get (fill (fid, val) c) f = Some [])
          then Some v else Map_get (fill (fid, val) c) f)"
    using Cons.IH [OF d, of "fill (fid, val) c"] by (simp add: a)
  show ?case
  proof (cases "f = fid")
    case True
    have "Map_get (fold fill (a # inc) c) f = Map_get (fill (fid, val) c) fid"
      unfolding step using True none by simp
    then show ?thesis
      using True by (simp add: a Map_get_fill Map_get_Cons)
  next
    case False
    have g: "Map_get (fill (fid, val) c) f = Map_get c f"
      using False by (simp add: Map_get_fill)
    have h: "Map_get (a # inc) f = Map_get inc f"
      using False by (simp add: a Map_get_Cons)
    show ?thesis
      unfolding step g h ..
  qed
qed

lemma merge_cells_fold: "merge_cells c inc = fold fill inc c"
  by (simp add: merge_cells_def fill_def)

lemma Map_get_merge_cells:
  "distinct (map fst inc) \<Longrightarrow>
   Map_get (merge_cells c inc) f =
     (case Map_get inc f of
        None \<Rightarrow> Map_get c f
      | Some v \<Rightarrow> if v \<noteq> [] \<and> (Map_get c f = None \<or> Map_get c f = Some []) then Some v
                  else Map_get c f)"
  by (simp add: merge_cells_fold Map_get_fold_fill)

lemma Map_get_merge_row:
  "Map_get (merge_row (rowId, rd) t) k =
     (if k = rowId then
        (case Map_get t rowId of
           None \<Rightarrow> Some rd
         | Some e \<Rightarrow> Some (e\<lparr>cells := merge_cells (cells e) (cells rd)\<rparr>))
      else Map_get t k)"
  by (auto simp: merge_row_def Map_get_Map_set split: option.splits)

lemma Map_get_mergeRows:
  "distinct (map fst source) \<Longrightarrow>
   Map_get (mergeRows target source) k =
     (case Map_get source k of
        None \<Rightarrow> Map_get target k
      | Some rd \<Rightarrow>
          (case Map_get target k of
             None \<Rightarrow> Some rd
           | Some e \<Rightarrow> Some (e\<lparr>cells := merge_cells (cells e) (cells rd)\<rparr>)))"
proof -
  have "distinct (map fst source) \<Longrightarrow>
     Map_get (fold merge_row source target) k =
     (case Map_get source k of
        None \<Rightarrow> Map_get target k
      | Some rd \<Rightarrow>
          (case Map_get target k of
             None \<Rightarrow> Some rd
           | Some e \<Rightarrow> Some (e\<lparr>cells := merge_cells (cells e) (cells rd)\<rparr>)))"
  proof (induction source arbitrary: target)
    case Nil
    show ?case by (simp add: Map_get_Nil)
  next
    case (Cons a source)
    obtain rowId rd where a: "a = (rowId, rd)" by (cases a) auto
    from Cons.prems have d: "distinct (map fst source)" and n: "rowId \<notin> fst ` set source"
      by (auto simp: a)
    have none: "Map_get source rowId = None"
      using n by (rule Map_get_absent)
    have step: "Map_get (fold merge_row (a # source) target) k =
       (case Map_get source k of
          None \<Rightarrow> Map_get (merge_row (rowId, rd) target) k
        | Some rd' \<Rightarrow>
            (case Map_get (merge_row (rowId, rd) target) k of
               None \<Rightarrow> Some rd'
             | Some e \<Rightarrow> Some (e\<lparr>cells := merge_cells (cells e) (cells rd')\<rparr>)))"
      using Cons.IH [OF d, of "merge_row (rowId, rd) target"] by (simp add: a)
    show ?case
    proof (cases "k = rowId")
      case True
      have "Map_get (fold merge_row (a # source) target) k = Map_get (merge_row (rowId, rd) target) rowId"
        unfolding step using True none by simp
      then show ?thesis
        using True by (simp add: a Map_get_merge_row Map_get_Cons)
    next
      case False
      have g: "Map_get (merge_row (rowId, rd) target) k = Map_get target k"
        using False by (simp add: Map_get_merge_row)
      have h: "Map_get (a # source) k = Map_get source k"
        using False by (simp add: a Map_get_Cons)
      show ?thesis
        unfolding step g h ..
    qed
  qed
  then show "distinct (map fst source) \<Longrightarrow> ?thesis"
    by (simp add: mergeRows_def merge_row_def)
qed

text \<open>
  Claim C2. Let \<open>source\<close> be a pass, a \<^verbatim>\<open>Map\<close>: its row ids are pairwise distinct, and so are
  the field ids of each of its rows. Merging it into \<open>target\<close> gives, for every row id \<open>k\<close>:
  if \<open>k\<close> is new, the row of the pass as it is (wholesale); if \<open>k\<close> is present with entry \<open>e\<close>,
  an entry with the index of \<open>e\<close> (the first-seen index is kept) in which a cell is the
  incoming value exactly when that value is non-empty and the accumulated slot is absent or
  the empty string, and is the accumulated cell otherwise; so a non-empty cell never
  changes. Merging \<open>{rowA: {f1: "x"}}\<close> with the pass \<open>[{rowA: {f1: "y", f2: "z"}}]\<close> gives
  \<open>{rowA: {f1: "x", f2: "z"}}\<close>.
\<close>

theorem mergeRows_first_writer_wins:
  assumes "distinct (map fst source)"
    and "\<forall>(rowId, rd) \<in> set source. distinct (map fst (cells rd))"
  shows
    "(Map_get target k = None \<longrightarrow> Map_get (mergeRows target source) k = Map_get source k) \<and>
     (\<forall>e. Map_get target k = Some e \<longrightarrow>
        (\<exists>e'. Map_get (mergeRows target source) k = Some e' \<and>
              index e' = index e \<and>
              (\<forall>f. Map_get (cells e') f =
                 (case Map_get source k of
                    None \<Rightarrow> Map_get (cells e) f
                  | Some rd \<Rightarrow>
                     (case Map_get (cells rd) f of
                        None \<Rightarrow> Map_get (cells e) f
                      | Some v \<Rightarrow>
                          if v \<noteq> [] \<and> (Map_get (cells e) f = None \<or> Map_get (cells e) f = Some [])
                          then Some v else Map_get (cells e) f))) \<and>
              (\<forall>f v. Map_get (cells e) f = Some v \<and> v \<noteq> [] \<longrightarrow> Map_get (cells e') f = Some v))) \<and>
     mergeRows [(''rowA'', \<lparr>index = 0, cells = [(''f1'', ''x'')]\<rparr>)]
               [(''rowA'', \<lparr>index = 5, cells = [(''f1'', ''y''), (''f2'', ''z'')]\<rparr>)]
       = [(''rowA'', \<lparr>index = 0, cells = [(''f1'', ''x''), (''f2'', ''z'')]\<rparr>)]"
proof (intro conjI allI impI)
  assume "Map_get target k = None"
  then show "Map_get (mergeRows target source) k = Map_get source k"
    by (simp add: Map_get_mergeRows [OF assms(1)] split: option.splits)
next
  fix e
  assume e: "Map_get target k = Some e"
  show "\<exists>e'. Map_get (mergeRows target source) k = Some e' \<and>
              index e' = index e \<and>
              (\<forall>f. Map_get (cells e') f =
                 (case Map_get source k of
                    None \<Rightarrow> Map_get (cells e) f
                  | Some rd \<Rightarrow>
                     (case Map_get (cells rd) f of
                        None \<Rightarrow> Map_get (cells e) f
                      | Some v \<Rightarrow>
                          if v \<noteq> [] \<and> (Map_get (cells e) f = None \<or> Map_get (cells e) f = Some [])
                          then Some v else Map_get (cells e) f))) \<and>
              (\<forall>f v. Map_get (cells e) f = Some v \<and> v \<noteq> [] \<longrightarrow> Map_get (cells e') f = Some v)"
  proof (cases "Map_get source k")
    case None
    then show ?thesis
      using e by (simp add: Map_get_mergeRows [OF assms(1)])
  next
    case (Some rd)
    then have "(k, rd) \<in> set source"
      by (rule Map_get_SomeD)
    with assms(2) have d: "distinct (map fst (cells rd))"
      by auto
    show ?thesis
      using e Some
      by (auto simp: Map_get_mergeRows [OF assms(1)] Map_get_merge_cells [OF d] split: option.splits)
  qed
next
  show "mergeRows [(''rowA'', \<lparr>index = 0, cells = [(''f1'', ''x'')]\<rparr>)]
               [(''rowA'', \<lparr>index = 5, cells = [(''f1'', ''y''), (''f2'', ''z'')]\<rparr>)]
       = [(''rowA'', \<lparr>index = 0, cells = [(''f1'', ''x''), (''f2'', ''z'')]\<rparr>)]"
    by (simp add: mergeRows_def merge_cells_def Map_get_Cons Map_get_Nil Map_has_get)
qed


theorem mergeRows_first_writer_wins_witness:
  "distinct (map fst [(''rowA'', \<lparr>index = 5, cells = [(''f1'', ''y''), (''f2'', ''z'')]\<rparr>)]) \<and>
   distinct (map fst (cells \<lparr>index = 5, cells = [(''f1'', ''y''), (''f2'', ''z'')]\<rparr>)) \<and>
   (\<exists>e'. Map_get (mergeRows [(''rowA'', \<lparr>index = 0, cells = [(''f1'', ''x'')]\<rparr>)]
                   [(''rowA'', \<lparr>index = 5, cells = [(''f1'', ''y''), (''f2'', ''z'')]\<rparr>)]) ''rowA''
           = Some e' \<and>
         index e' = 0 \<and>
         Map_get (cells e') ''f1'' = Some ''x'' \<and>
         Map_get (cells e') ''f2'' = Some ''z'')"
proof -
  let ?S = "[(''rowA'', \<lparr>index = 5, cells = [(''f1'', ''y''), (''f2'', ''z'')]\<rparr>)]"
  let ?T = "[(''rowA'', \<lparr>index = 0, cells = [(''f1'', ''x'')]\<rparr>)]"
  let ?e = "\<lparr>index = 0, cells = [(''f1'', ''x'')]\<rparr>"
  have h1: "distinct (map fst ?S)"
    by simp
  have h2: "\<forall>(rowId, rd) \<in> set ?S. distinct (map fst (cells rd))"
    by simp
  have t: "Map_get ?T ''rowA'' = Some ?e"
    by (simp add: Map_get_Cons)
  from mergeRows_first_writer_wins [OF h1 h2, of ?T "''rowA''"] t
  obtain e' where e: "Map_get (mergeRows ?T ?S) ''rowA'' = Some e'"
    and i: "index e' = index ?e"
    and c: "\<And>f. Map_get (cells e') f =
                 (case Map_get ?S ''rowA'' of
                    None \<Rightarrow> Map_get (cells ?e) f
                  | Some rd \<Rightarrow>
                     (case Map_get (cells rd) f of
                        None \<Rightarrow> Map_get (cells ?e) f
                      | Some v \<Rightarrow>
                          if v \<noteq> [] \<and> (Map_get (cells ?e) f = None \<or> Map_get (cells ?e) f = Some [])
                          then Some v else Map_get (cells ?e) f))"
    by blast
  have "Map_get (cells e') ''f1'' = Some ''x''"
    unfolding c by (simp add: Map_get_Cons Map_get_Nil)
  moreover have "Map_get (cells e') ''f2'' = Some ''z''"
    unfolding c by (simp add: Map_get_Cons Map_get_Nil)
  ultimately show ?thesis
    using e i by simp
qed

section \<open>Flattening an object\<close>

lemma own_prop_None_iff: "(own_prop kvs k = None) = (k \<notin> set (Object_keys (JObj kvs)))"
  by (simp add: own_prop_def map_of_eq_None_iff)

lemma first_own_find:
  "first_own kvs ks =
     (case find (\<lambda>k. k \<in> set (Object_keys (JObj kvs))) ks of
        None \<Rightarrow> None
      | Some k \<Rightarrow> own_prop kvs k)"
proof (induction ks)
  case Nil
  show ?case by simp
next
  case (Cons k ks)
  show ?case
  proof (cases "own_prop kvs k")
    case None
    then have "k \<notin> set (Object_keys (JObj kvs))"
      using own_prop_None_iff [of kvs k] by simp
    then show ?thesis
      using None Cons.IH by simp
  next
    case (Some v)
    then have "k \<in> set (Object_keys (JObj kvs))"
      using own_prop_None_iff [of kvs k] by simp
    then show ?thesis
      using Some by simp
  qed
qed

lemma find_append_cases:
  "find P (xs @ ys) = (case find P xs of None \<Rightarrow> find P ys | Some x \<Rightarrow> Some x)"
  by (induction xs) auto

lemma find_Some_mem: "find P xs = Some x \<Longrightarrow> x \<in> set xs \<and> P x"
  by (induction xs) (auto split: if_splits)

lemma flattenValue_JObj:
  "flattenValue (JObj kvs) =
     (case first_own kvs flatten_keys of
        Some v \<Rightarrow> flattenValue v
      | None \<Rightarrow>
     (case first_own kvs string_keys of
        Some v \<Rightarrow> String_js v
      | None \<Rightarrow>
      if length kvs \<le> 4
        then map_sum id (join '', '')
               (sequence_err
                  (map (\<lambda>(k, v). map_sum id (\<lambda>s. k @ ('': '' @ s)) (flattenValue v)) kvs))
      else Inr (JSON_stringify (JObj kvs))))"
  unfolding flatten_keys_def string_keys_def by (rule flattenValue.simps)

text \<open>
  What the object branch computes. The keys value, text, name, label, title, display, url,
  href, email, phone are tried in that order. If the first of them that the object has is
  one of value, text, name, label, title, display, the flattened value of that property is
  returned; if it is one of url, href, email, phone, the \<^verbatim>\<open>String\<close> conversion of that property
  is returned, which is its flattened value when the property is a string, a number or a
  boolean. If the object has none of the ten keys and at most 4 keys, the result is the
  pairs \<open>key: flattenedValue\<close> joined by a comma and a space; otherwise it is the compact JSON
  text of the object.
\<close>

lemma flattenValue_object_branches:
  "flattenValue (JObj kvs) =
     (case find (\<lambda>k. k \<in> set (Object_keys (JObj kvs))) priority_keys of
        Some k \<Rightarrow>
          if k \<in> set flatten_keys then flattenValue (the (own_prop kvs k))
          else String_js (the (own_prop kvs k))
      | None \<Rightarrow>
          if length kvs \<le> 4
          then map_sum id (join '', '')
                 (sequence_err
                    (map (\<lambda>(k, v). map_sum id (\<lambda>s. k @ ('': '' @ s)) (flattenValue v)) kvs))
          else Inr (JSON_stringify (JObj kvs))) \<and>
   (\<forall>v. is_primitive v \<and> v \<noteq> JNull \<longrightarrow> String_js v = flattenValue v)"
proof
  let ?P = "\<lambda>k. k \<in> set (Object_keys (JObj kvs))"
  show "flattenValue (JObj kvs) =
     (case find ?P priority_keys of
        Some k \<Rightarrow>
          if k \<in> set flatten_keys then flattenValue (the (own_prop kvs k))
          else String_js (the (own_prop kvs k))
      | None \<Rightarrow>
          if length kvs \<le> 4
          then map_sum id (join '', '')
                 (sequence_err
                    (map (\<lambda>(k, v). map_sum id (\<lambda>s. k @ ('': '' @ s)) (flattenValue v)) kvs))
          else Inr (JSON_stringify (JObj kvs)))"
  proof (cases "find ?P flatten_keys")
    case (Some k)
    then have k: "k \<in> set flatten_keys" and p: "?P k"
      using find_Some_mem [of ?P flatten_keys k] by auto
    from p obtain v where v: "own_prop kvs k = Some v"
      using own_prop_None_iff [of kvs k] by auto
    have "first_own kvs flatten_keys = Some v"
      by (simp only: first_own_find Some option.case v)
    then show ?thesis
      by (simp only: flattenValue_JObj priority_keys_def find_append_cases Some k v
            option.case option.sel if_True)
  next
    case None
    then have f: "first_own kvs flatten_keys = None"
      by (simp only: first_own_find option.case)
    show ?thesis
    proof (cases "find ?P string_keys")
      case (Some k)
      then have k: "k \<in> set string_keys" and p: "?P k"
        using find_Some_mem [of ?P string_keys k] by auto
      have nk: "k \<notin> set flatten_keys"
        using k by (auto simp: flatten_keys_def string_keys_def)
      from p obtain v where v: "own_prop kvs k = Some v"
        using own_prop_None_iff [of kvs k] by auto
      have "first_own kvs string_keys = Some v"
        by (simp only: first_own_find Some option.case v)
      then show ?thesis
        by (simp only: flattenValue_JObj priority_keys_def find_append_cases None Some nk v f
              option.case option.sel if_False)
    next
      case None2: None
      then have "first_own kvs string_keys = None"
        by (simp only: first_own_find option.case)
      then show ?thesis
        by (simp only: flattenValue_JObj priority_keys_def find_append_cases None None2 f
              option.case)
    qed
  qed
next
  show "\<forall>v. is_primitive v \<and> v \<noteq> JNull \<longrightarrow> String_js v = flattenValue v"
  proof (intro allI impI)
    fix v
    assume "is_primitive v \<and> v \<noteq> JNull"
    then show "String_js v = flattenValue v"
      by (cases v) (auto simp: is_primitive_def)
  qed
qed

text \<open>
  Claim C5: for an object the flattened value of the first present key among value, text,
  name, label, title, display, url, href, email, phone is returned. For the first six keys
  the code does return \<^verbatim>\<open>flattenValue(val.k)\<close>, but for url, href, email and phone it returns
  \<^verbatim>\<open>String(val.k)\<close>, which is not the flattened value when the property is null, an array or
  an object. The flattened value of null is the empty string, and \<open>{name: null}\<close> is
  flattened to it, but \<open>{url: null}\<close> is flattened to the text \<open>null\<close>; the flattened value of
  \<open>{a: 1}\<close> is \<open>a: 1\<close>, and \<open>{name: {a: 1}}\<close> is flattened to it, but \<open>{url: {a: 1}}\<close> is
  flattened to \<open>[object Object]\<close>.
\<close>

theorem flattenValue_url_not_flattened:
  "flattenValue JNull = Inr [] \<and>
   flattenValue (JObj [(''name'', JNull)]) = Inr [] \<and>
   flattenValue (JObj [(''url'', JNull)]) = Inr ''null'' \<and>
   flattenValue (JObj [(''a'', JNum ''1'')]) = Inr ''a: 1'' \<and>
   flattenValue (JObj [(''name'', JObj [(''a'', JNum ''1'')])]) = Inr ''a: 1'' \<and>
   flattenValue (JObj [(''url'', JObj [(''a'', JNum ''1'')])]) = Inr ''[object Object]''"
  by (simp add: first_own.simps own_prop_def)

subsection \<open>Returning a string\<close>

lemma sequence_err_all_Inr:
  "(\<And>x. x \<in> set xs \<Longrightarrow> \<exists>y. f x = Inr y) \<Longrightarrow> \<exists>ys. sequence_err (map f xs) = Inr ys"
proof (induction xs)
  case Nil
  show ?case by simp
next
  case (Cons x xs)
  from Cons.prems obtain y where y: "f x = Inr y" by auto
  from Cons obtain ys where "sequence_err (map f xs) = Inr ys" by auto
  then show ?case by (simp add: y)
qed

lemma String_js_returns: "no_toString v \<Longrightarrow> \<exists>s. String_js v = Inr s"
proof (induction v)
  case (JArr xs)
  have "\<exists>ys. sequence_err (map (\<lambda>x. if x = JNull then Inr [] else String_js x) xs) = Inr ys"
  proof (rule sequence_err_all_Inr)
    fix x
    assume "x \<in> set xs"
    then show "\<exists>y. (if x = JNull then Inr [] else String_js x) = Inr y"
      using JArr by (auto simp: list_all_iff)
  qed
  then show ?case by auto
qed simp_all

lemma first_own_value: "first_own kvs ks = Some v \<Longrightarrow> \<exists>k. (k, v) \<in> set kvs"
proof (induction ks)
  case Nil
  then show ?case by (simp add: first_own.simps)
next
  case (Cons k ks)
  then show ?case
    by (auto simp: first_own.simps own_prop_def split: option.splits dest: map_of_SomeD)
qed

lemma flattenValue_returns: "no_toString v \<Longrightarrow> \<exists>s. flattenValue v = Inr s"
proof (induction v rule: flattenValue.induct)
  case (5 xs)
  have a: "\<exists>ys. sequence_err (map (\<lambda>v. if v = JNull then Inr [] else String_js v) xs) = Inr ys"
  proof (rule sequence_err_all_Inr)
    fix x
    assume "x \<in> set xs"
    then show "\<exists>y. (if x = JNull then Inr [] else String_js x) = Inr y"
      using 5 String_js_returns by (auto simp: list_all_iff)
  qed
  have b: "\<exists>ys. sequence_err (map flattenValue xs) = Inr ys"
    if "xs \<noteq> []" and "\<not> list_all is_primitive xs"
  proof (rule sequence_err_all_Inr)
    fix x
    assume "x \<in> set xs"
    then show "\<exists>y. flattenValue x = Inr y"
      using 5 that by (auto simp: list_all_iff)
  qed
  show ?case
    using a b by auto
next
  case (6 kvs)
  let ?A = "[''value'', ''text'', ''name'', ''label'', ''title'', ''display'']"
  let ?B = "[''url'', ''href'', ''email'', ''phone'']"
  have sub: "no_toString v" if "(k, v) \<in> set kvs" for k v
    using "6.prems" that by (auto simp: list_all_iff)
  show ?case
  proof (cases "first_own kvs ?A")
    case (Some v)
    then obtain k where "(k, v) \<in> set kvs"
      using first_own_value by blast
    then have "\<exists>s. flattenValue v = Inr s"
      using "6.IH"(2) [OF Some] sub by blast
    then show ?thesis
      using Some by (simp del: first_own.simps)
  next
    case None
    show ?thesis
    proof (cases "first_own kvs ?B")
      case (Some v)
      then obtain k where "(k, v) \<in> set kvs"
        using first_own_value by blast
      then have "\<exists>s. String_js v = Inr s"
        using sub String_js_returns by blast
      then show ?thesis
        using None Some by (simp del: first_own.simps)
    next
      case None2: None
      show ?thesis
      proof (cases "length kvs \<le> 4")
        case True
        have "\<exists>ys. sequence_err
                  (map (\<lambda>(k, v). map_sum id (\<lambda>s. k @ ('': '' @ s)) (flattenValue v)) kvs) = Inr ys"
        proof (rule sequence_err_all_Inr)
          fix x
          assume x: "x \<in> set kvs"
          obtain k v where kv: "x = (k, v)" by (cases x) auto
          have "\<exists>s. flattenValue v = Inr s"
            using "6.IH"(1) [OF None None2 True x kv [symmetric]] sub x kv by blast
          then show "\<exists>y. (case x of (k, v) \<Rightarrow> map_sum id (\<lambda>s. k @ ('': '' @ s)) (flattenValue v)) = Inr y"
            by (auto simp: kv)
        qed
        then show ?thesis
          using None None2 True by (auto simp del: first_own.simps)
      next
        case False
        then show ?thesis
          using None None2 by (simp del: first_own.simps)
      qed
    qed
  qed
qed simp_all

text \<open>
  Claim C10: the flattener returns a string for every finite JSON value and never throws.
  The recursion does descend into proper subvalues only (the termination proof of
  \<open>flattenValue\<close> above), and a string is returned for every value in which no object has an
  own property \<open>toString\<close> (lemma \<open>flattenValue_returns\<close>). But on the finite JSON value
  \<open>{url: {toString: 1}}\<close> the call \<^verbatim>\<open>String(val.url)\<close> throws a TypeError, so no string is
  returned.
\<close>

theorem flattenValue_throws_on_toString:
  "flattenValue (JObj [(''url'', JObj [(''toString'', JNum ''1'')])]) = Inl TypeError"
  by (simp add: first_own.simps own_prop_def)

section \<open>Detecting table candidates\<close>

lemma isConsistent_item_shares: "isConsistent_item (Object_keys first) x = shares_half_keys first x"
proof -
  have "(real a * 0.5 \<le> real b) = (a \<le> 2 * b)" for a b :: nat
  proof -
    have "(real a * 0.5 \<le> real b) = (real a \<le> real (2 * b))"
      by (simp add: field_simps)
    then show ?thesis
      by (simp only: of_nat_le_iff)
  qed
  then show ?thesis
    by (simp add: isConsistent_item_def shares_half_keys_def Let_def)
qed

lemma looks_like_rows_qualifies: "looks_like_rows xs = qualifies xs"
proof (cases xs)
  case Nil
  then show ?thesis by (simp add: qualifies_def)
next
  case (Cons x rest)
  show ?thesis
  proof (cases x)
    case (JObj kvs)
    have "isConsistent_item (map fst kvs) = shares_half_keys (JObj kvs)"
      using isConsistent_item_shares [of "JObj kvs"] by (simp add: fun_eq_iff)
    then show ?thesis
      by (simp add: Cons JObj qualifies_def is_plain_object_def Let_def)
  qed (simp_all add: Cons qualifies_def is_plain_object_def)
qed

lemma fold_append_results:
  "(\<And>x r. x \<in> set xs \<Longrightarrow> f x r = r @ g x) \<Longrightarrow> fold f xs r = r @ concat (map g xs)"
  by (induction xs arbitrary: r) auto

lemma arrays_within_primitive: "\<not> is_object v \<Longrightarrow> arrays_within n v = []"
  by (cases v) auto

lemma findAllTableArrays_deep: "8 < depth \<Longrightarrow> findAllTableArrays v depth results = results"
  by (cases v) auto

lemma fold_deep_items:
  "8 < d \<Longrightarrow>
   fold (\<lambda>item res. if is_object item then findAllTableArrays item d res else res) xs r = r"
  by (induction xs arbitrary: r) (simp_all add: findAllTableArrays_deep)

lemma fold_deep_values:
  "8 < d \<Longrightarrow> fold (\<lambda>(key, v) res. findAllTableArrays v d res) kvs r = r"
  by (induction kvs arbitrary: r) (simp_all add: findAllTableArrays_deep case_prod_beta)

lemma findAllTableArrays_arrays_within:
  "depth \<le> 8 \<Longrightarrow>
   findAllTableArrays v depth results = results @ filter qualifies (arrays_within (8 - depth) v)"
proof (induction v depth results rule: findAllTableArrays.induct)
  case (1 xs depth results)
  let ?r = "if looks_like_rows xs then results @ [xs] else results"
  let ?f = "\<lambda>item res. if is_object item then findAllTableArrays item (depth + 1) res else res"
  show ?case
  proof (cases "depth = 8")
    case True
    then show ?thesis
      by (simp add: looks_like_rows_qualifies fold_deep_items)
  next
    case False
    with 1 have d: "depth + 1 \<le> 8" and s: "8 - depth = Suc (8 - (depth + 1))" and n: "\<not> 8 < depth"
      by simp_all
    have "fold ?f xs ?r = ?r @ concat (map (\<lambda>x. filter qualifies (arrays_within (8 - (depth + 1)) x)) xs)"
    proof (rule fold_append_results)
      fix x r
      assume x: "x \<in> set xs"
      show "?f x r = r @ filter qualifies (arrays_within (8 - (depth + 1)) x)"
      proof (cases "is_object x")
        case True
        then show ?thesis
          using "1.IH" [OF n x True d] by simp
      next
        case False
        then show ?thesis
          by (simp add: arrays_within_primitive)
      qed
    qed
    then show ?thesis
      using n unfolding s
      by (simp add: looks_like_rows_qualifies filter_concat comp_def)
  qed
next
  case (2 kvs depth results)
  let ?f = "\<lambda>(key, v) res. findAllTableArrays v (depth + 1) res"
  show ?case
  proof (cases "depth = 8")
    case True
    then show ?thesis
      by (simp add: fold_deep_values)
  next
    case False
    with 2 have d: "depth + 1 \<le> 8" and s: "8 - depth = Suc (8 - (depth + 1))" and n: "\<not> 8 < depth"
      by simp_all
    have "fold ?f kvs results
            = results @ concat (map (\<lambda>x. filter qualifies (arrays_within (8 - (depth + 1)) (snd x))) kvs)"
    proof (rule fold_append_results)
      fix x r
      assume x: "x \<in> set kvs"
      obtain k v where kv: "x = (k, v)" by (cases x) auto
      show "?f x r = r @ filter qualifies (arrays_within (8 - (depth + 1)) (snd x))"
        using "2.IH" [OF n x, of k v r] d by (simp add: kv)
    qed
    then show ?thesis
      using n unfolding s
      by (simp add: filter_concat comp_def case_prod_beta)
  qed
qed simp_all

text \<open>
  Claim C3, as amended. The detector reports exactly the arrays that occur in the document at
  nesting depth at most 8 and qualify, in document order; an array qualifies when its length
  is at least 1, its first element is a non-array, non-null object with at least 2 own keys,
  and each of its first \<open>min 5 length\<close> elements is an object sharing at least 50% of the first
  element's keys. An array of 5 objects whose later elements share only 1 of the first
  element's 4 keys does not qualify; one whose elements share 2 of the 4 keys qualifies.
\<close>

theorem findAllTableArrays_detects:
  "findAllTableArrays doc 0 [] = filter qualifies (arrays_within 8 doc) \<and>
   \<not> qualifies
       [JObj [(''a'', v1), (''b'', v2), (''c'', v3), (''d'', v4)],
        JObj [(''a'', w1), (''x'', w2), (''y'', w3), (''z'', w4)],
        JObj [(''a'', w1), (''x'', w2), (''y'', w3), (''z'', w4)],
        JObj [(''a'', w1), (''x'', w2), (''y'', w3), (''z'', w4)],
        JObj [(''a'', w1), (''x'', w2), (''y'', w3), (''z'', w4)]] \<and>
   qualifies
       [JObj [(''a'', v1), (''b'', v2), (''c'', v3), (''d'', v4)],
        JObj [(''a'', w1), (''b'', w2), (''y'', w3), (''z'', w4)],
        JObj [(''a'', w1), (''b'', w2), (''y'', w3), (''z'', w4)],
        JObj [(''a'', w1), (''b'', w2), (''y'', w3), (''z'', w4)],
        JObj [(''a'', w1), (''b'', w2), (''y'', w3), (''z'', w4)]]"
  using findAllTableArrays_arrays_within [of 0 doc "[]"]
  by (simp add: qualifies_def is_plain_object_def shares_half_keys_def)

theorem findAllTableArrays_detects_witness:
  "findAllTableArrays (JObj [(''data'', JObj [(''items'', JArr [sample_row, sample_row])])]) 0 []
     = [[sample_row, sample_row]]"
  using findAllTableArrays_detects
    [where doc = "JObj [(''data'', JObj [(''items'', JArr [sample_row, sample_row])])]", THEN conjunct1]
  by (simp add: eval_nat_numeral sample_row_def qualifies_def is_plain_object_def shares_half_keys_def)

text \<open>
  Claim C3 as stated, for every array of every document, fails below depth 8: an array that
  qualifies but occurs at depth 9 is not reported.
\<close>

theorem findAllTableArrays_depth_counterexample:
  "qualifies [sample_row, sample_row] \<and>
   [sample_row, sample_row] \<in> set (arrays_within 9 deep_document) \<and>
   findAllTableArrays deep_document 0 [] = []"
  by (simp add: eval_nat_numeral deep_document_def sample_row_def qualifies_def is_plain_object_def
        shares_half_keys_def)

section \<open>Assembling the table of a candidate\<close>

text \<open>
  The headers are the ordered union of the keys of the first ten elements, without the nine
  keys of the denylist; the row of an element that is not null flattens \<open>element[header]\<close> for
  each header. A key that an object lacks gives the empty string when the object has no
  member of that name at all, and the text of the member when the engine supplies one (the
  header \<^verbatim>\<open>constructor\<close>, taken from the keys of another element, is such a name).
\<close>

lemma first_occurrences_snoc: "first_occurrences (xs @ [k]) = Set_add (first_occurrences xs) k"
  by (simp add: first_occurrences_def Set_add_def)

lemma fold_Set_add:
  "fold (\<lambda>key s. Set_add s key) ks (first_occurrences acc) = first_occurrences (acc @ ks)"
proof (induction ks arbitrary: acc)
  case Nil
  show ?case by simp
next
  case (Cons k ks)
  show ?case
    using Cons [of "acc @ [k]"] by (simp add: first_occurrences_snoc)
qed

lemma fold_items_Set_add:
  "fold (\<lambda>item acc. if is_object item then fold (\<lambda>key s. Set_add s key) (Object_keys item) acc else acc)
     items (first_occurrences acc)
   = first_occurrences (acc @ concat (map keys_of items))"
proof (induction items arbitrary: acc)
  case Nil
  show ?case by simp
next
  case (Cons item items)
  show ?case
  proof (cases "is_object item")
    case True
    then show ?thesis
      using Cons [of "acc @ Object_keys item"] by (simp add: fold_Set_add keys_of_def)
  next
    case False
    then show ?thesis
      using Cons [of acc] by (simp add: keys_of_def)
  qed
qed

lemma extractHeadersFromObjects_ordered_union:
  assumes "is_object first"
  shows "extractHeadersFromObjects (first # rest)
           = Inr (filter (\<lambda>k. k \<notin> set skipKeys)
                    (first_occurrences (concat (map keys_of (take 10 (first # rest))))))"
proof -
  have n: "first \<noteq> JNull"
    using assms by auto
  have e: "first_occurrences [] = ([] :: string list)"
    by (simp add: first_occurrences_def)
  have t: "drop 1 (take (min (length (first # rest)) 10) (first # rest)) = take 9 rest"
    by (simp add: min_def take_Cons')
  have "fold (\<lambda>item acc. if is_object item then fold (\<lambda>key s. Set_add s key) (Object_keys item) acc else acc)
          (take 9 rest) (fold (\<lambda>key s. Set_add s key) (Object_keys first) [])
        = first_occurrences (Object_keys first @ concat (map keys_of (take 9 rest)))"
    using fold_Set_add [of "Object_keys first" "[]"] fold_items_Set_add [of "take 9 rest" "Object_keys first"]
    by (simp add: e)
  moreover have "concat (map keys_of (take 10 (first # rest)))
                   = Object_keys first @ concat (map keys_of (take 9 rest))"
    using assms by (simp add: keys_of_def take_Cons')
  ultimately show ?thesis
    using n t by (cases first) (simp_all add: Let_def)
qed

lemma own_key_flattened:
  "own_prop kvs h = Some v \<Longrightarrow> cell_text inherited (JObj kvs) h = flattenValue v"
  by (simp add: cell_text_def)

lemma missing_key_empty:
  "h \<notin> set (Object_keys (JObj kvs)) \<Longrightarrow> inherited (JObj kvs) h = None \<Longrightarrow>
   cell_text inherited (JObj kvs) h = Inr []"
  by (simp add: cell_text_def own_prop_def map_of_eq_None_iff [THEN iffD2])

lemma missing_key_inherited:
  "h \<notin> set (Object_keys (JObj kvs)) \<Longrightarrow> inherited (JObj kvs) h = Some text \<Longrightarrow>
   cell_text inherited (JObj kvs) h = Inr text"
  by (simp add: cell_text_def own_prop_def map_of_eq_None_iff [THEN iffD2])

text \<open>
  Claim C4: for every candidate array the assembler derives the headers and builds each row
  by flattening \<open>element[header]\<close>, a missing key giving the empty string. The payload of the
  specification's scenario gives the headers id, name and the rows (1, A), (2, B). But the
  array of five rows followed by null is a candidate (the detector samples its first five
  elements) with the headers a, b (header extraction skips null), and building its rows
  reads \<^verbatim>\<open>null['a']\<close>, which throws a TypeError: no row is built. This holds whatever
  members the engine supplies.
\<close>

theorem parseApiResponsesToTable_throws_on_null_row:
  "parseApiResponsesToTable inherited [api_payload (JObj [(''data'', JObj [(''items'', JArr
      [JObj [(''id'', JNum ''1''), (''name'', JStr ''A''), (''__typename'', JStr ''X'')],
       JObj [(''id'', JNum ''2''), (''name'', JStr ''B''), (''__typename'', JStr ''X'')]])])])]
     = Inr (Some \<lparr>headers = [''id'', ''name''], rows = [[''1'', ''A''], [''2'', ''B'']]\<rparr>) \<and>
   findAllTableArrays (JArr [sample_row, sample_row, sample_row, sample_row, sample_row, JNull]) 0 []
     = [[sample_row, sample_row, sample_row, sample_row, sample_row, JNull]] \<and>
   extractHeadersFromObjects [sample_row, sample_row, sample_row, sample_row, sample_row, JNull]
     = Inr [''a'', ''b''] \<and>
   parseApiResponsesToTable inherited
     [api_payload (JArr [sample_row, sample_row, sample_row, sample_row, sample_row, JNull])]
     = Inl TypeError"
  by code_simp

section \<open>Replacing the parsed table\<close>

lemma sequence_err_length: "sequence_err xs = Inr ys \<Longrightarrow> length ys = length xs"
proof (induction xs arbitrary: ys)
  case Nil
  then show ?case by simp
next
  case (Cons x xs)
  then show ?case
    by (cases x) (auto split: sum.splits)
qed

lemma consider_candidate_rows:
  assumes "consider_candidate inherited tableData best = Inr (Some t)"
    and "\<forall>b. best = Some b \<longrightarrow> rows b \<noteq> []"
  shows "rows t \<noteq> []"
proof (cases "length tableData = 0")
  case True
  then show ?thesis
    using assms by (simp add: consider_candidate_def)
next
  case False
  have new: "rows \<lparr>headers = hs, rows = rs\<rparr> \<noteq> []"
    if "sequence_err (map (row_of inherited hs) tableData) = Inr rs" for hs rs
    using sequence_err_length [OF that] False by auto
  show ?thesis
    using assms False new
    by (auto simp: consider_candidate_def split: sum.splits if_splits option.splits)
qed

lemma fold_err_invariant:
  assumes "fold_err f xs s = Inr s'" and "P s"
    and "\<And>x a b. f x a = Inr b \<Longrightarrow> P a \<Longrightarrow> P b"
  shows "P s'"
  using assms(1,2)
proof (induction xs arbitrary: s)
  case Nil
  then show ?case by simp
next
  case (Cons x xs)
  then show ?case
    using assms(3) by (auto split: sum.splits)
qed

lemma parseApiResponsesToTable_rows:
  assumes "parseApiResponsesToTable inherited responses = Inr (Some t)"
  shows "0 < length (rows t)"
proof -
  let ?P = "\<lambda>best. \<forall>b. best = Some b \<longrightarrow> rows b \<noteq> []"
  have inner: "?P b" if "fold_err (consider_candidate inherited) cs a = Inr b" and "?P a" for cs a b
    using that(1,2)
  proof (rule fold_err_invariant)
    fix x a' b'
    assume "consider_candidate inherited x a' = Inr b'" and "?P a'"
    then show "?P b'"
      using consider_candidate_rows by blast
  qed
  have "?P (Some t)"
    using assms [unfolded parseApiResponsesToTable_def]
  proof (rule fold_err_invariant)
    show "?P None" by simp
  next
    fix resp a b
    assume "fold_err (consider_candidate inherited) (findAllTableArrays (data resp) 0 []) a = Inr b" and "?P a"
    then show "?P b" by (rule inner)
  qed
  then show ?thesis by simp
qed

text \<open>
  Claim C1, as amended. The automatic parse after an API capture replaces the stored table
  only by a parsed table with at least one row and at least as many rows as the stored one.
  The explicit use of the API data replaces it by the parsed table whenever the parse yields
  one, and a DOM scrape replaces it by the scraped table whenever the scrape succeeds, both
  whatever the row counts. A capture that fails (no candidate table, an exception, a failed
  scrape, no Clay page) leaves the stored table unchanged.
\<close>

theorem parsedTable_replacement:
  "(parsedTable (snd (handleApiCapture inherited p tab_url now st)) = parsedTable st \<or>
    (\<exists>parsed.
       parseApiResponsesToTable inherited (apiResponses (snd (handleApiCapture inherited p tab_url now st)))
         = Inr (Some parsed) \<and>
       parsedTable (snd (handleApiCapture inherited p tab_url now st)) = Some parsed \<and>
       0 < length (rows parsed) \<and>
       (\<forall>old. parsedTable st = Some old \<longrightarrow> length (rows old) \<le> length (rows parsed)))) \<and>
   parsedTable (snd (handleUseApiData inherited now st))
     = (case parseApiResponsesToTable inherited (apiResponses st) of
          Inr (Some parsed) \<Rightarrow> Some parsed
        | _ \<Rightarrow> parsedTable st) \<and>
   parsedTable (snd (forwardToContentScript tab answer now st))
     = (if on_clay_page tab
        then (case scraped_table answer of Some t \<Rightarrow> Some t | None \<Rightarrow> parsedTable st)
        else parsedTable st)"
proof (intro conjI)
  define rs where "rs = (if hasTableData p then p # apiResponses st else apiResponses st @ [p])"
  have t: "(if length rs > 100 then take 100 rs else rs) = take 100 rs"
    by simp
  show "parsedTable (snd (handleApiCapture inherited p tab_url now st)) = parsedTable st \<or>
    (\<exists>parsed.
       parseApiResponsesToTable inherited (apiResponses (snd (handleApiCapture inherited p tab_url now st)))
         = Inr (Some parsed) \<and>
       parsedTable (snd (handleApiCapture inherited p tab_url now st)) = Some parsed \<and>
       0 < length (rows parsed) \<and>
       (\<forall>old. parsedTable st = Some old \<longrightarrow> length (rows old) \<le> length (rows parsed)))"
    unfolding handleApiCapture_def Let_def rs_def [symmetric] t
    by (simp split: sum.split option.split)
next
  have "parseApiResponsesToTable inherited [] = Inr None"
    by (simp add: parseApiResponsesToTable_def)
  then show "parsedTable (snd (handleUseApiData inherited now st))
     = (case parseApiResponsesToTable inherited (apiResponses st) of
          Inr (Some parsed) \<Rightarrow> Some parsed
        | _ \<Rightarrow> parsedTable st)"
    using parseApiResponsesToTable_rows [of inherited "apiResponses st"]
    by (auto simp: handleUseApiData_def split: sum.split option.split)
next
  show "parsedTable (snd (forwardToContentScript tab answer now st))
     = (if on_clay_page tab
        then (case scraped_table answer of Some t \<Rightarrow> Some t | None \<Rightarrow> parsedTable st)
        else parsedTable st)"
    by (auto simp: forwardToContentScript_def on_clay_page_def scraped_table_def
          split: option.split sum.split scrape_result.split)
qed

theorem parsedTable_replacement_witness:
  "on_clay_page (Some (Some clay_url)) \<and>
   parsedTable (snd (forwardToContentScript (Some (Some clay_url))
                       (Inr (Some (ScrapeSuccess [''h''] [[''1''], [''2'']] ''dom_scroll''))) 2
                       initial_store))
     = Some \<lparr>headers = [''h''], rows = [[''1''], [''2'']]\<rparr>"
proof -
  have c: "on_clay_page (Some (Some clay_url))"
    by (simp add: on_clay_page_def clay_url_def)
  show ?thesis
    using c parsedTable_replacement
      [where tab = "Some (Some clay_url)"
         and answer = "Inr (Some (ScrapeSuccess [''h''] [[''1''], [''2'']] ''dom_scroll''))"
         and now = 2 and st = initial_store, THEN conjunct2, THEN conjunct2]
    by (simp add: scraped_table_def)
qed

text \<open>
  Claim C1 as stated fails for the explicit use of the API data and for the DOM scrape: after
  an API response with one row and a DOM scrape of two rows, using the API data replaces the
  two rows by one row, and so does a second DOM scrape that finds one row. This holds
  whatever members the engine supplies.
\<close>

theorem parsedTable_regress_counterexample:
  "\<forall>inherited.
    (let st1 = snd (handleApiCapture inherited (api_payload (JArr [sample_row])) (Some clay_url) 1
                      initial_store);
         st2 = snd (forwardToContentScript (Some (Some clay_url))
                      (Inr (Some (ScrapeSuccess [''h''] [[''1''], [''2'']] ''dom_scroll''))) 2 st1);
         st3 = snd (handleUseApiData inherited 3 st2);
         st4 = snd (forwardToContentScript (Some (Some clay_url))
                      (Inr (Some (ScrapeSuccess [''h''] [[''1'']] ''dom_visible''))) 4 st2)
     in map_option (\<lambda>t. length (rows t)) (parsedTable st2) = Some 2 \<and>
        map_option (\<lambda>t. length (rows t)) (parsedTable st3) = Some 1 \<and>
        map_option (\<lambda>t. length (rows t)) (parsedTable st4) = Some 1)"
proof
  fix inherited :: members
  show "(let st1 = snd (handleApiCapture inherited (api_payload (JArr [sample_row])) (Some clay_url) 1
                      initial_store);
         st2 = snd (forwardToContentScript (Some (Some clay_url))
                      (Inr (Some (ScrapeSuccess [''h''] [[''1''], [''2'']] ''dom_scroll''))) 2 st1);
         st3 = snd (handleUseApiData inherited 3 st2);
         st4 = snd (forwardToContentScript (Some (Some clay_url))
                      (Inr (Some (ScrapeSuccess [''h''] [[''1'']] ''dom_visible''))) 4 st2)
     in map_option (\<lambda>t. length (rows t)) (parsedTable st2) = Some 2 \<and>
        map_option (\<lambda>t. length (rows t)) (parsedTable st3) = Some 1 \<and>
        map_option (\<lambda>t. length (rows t)) (parsedTable st4) = Some 1)"
    by code_simp
qed

section \<open>CSV output and reading it back\<close>

lemma double_quotes_Nil: "double_quotes [] = []"
  by (simp add: double_quotes_def)

lemma double_quotes_Cons:
  "double_quotes (c # s) = (if c = dquote then dquote # dquote # double_quotes s else c # double_quotes s)"
  by (simp add: double_quotes_def)

lemma halve_quotes_other: "c \<noteq> dquote \<Longrightarrow> halve_quotes (c # xs) = c # halve_quotes xs"
  by (cases xs) simp_all

lemma halve_double: "halve_quotes (double_quotes s) = s"
  by (induction s) (simp_all add: double_quotes_Nil double_quotes_Cons halve_quotes_other)

lemma unquote_escape: "unquote (escape (Some s)) = s"
  by (simp add: unquote_def escape_def halve_double)

lemma escape_not_Nil: "escape v \<noteq> []"
  by (simp add: escape_def)

lemma escape_shape: "\<exists>s. escape v = dquote # double_quotes s @ [dquote]"
  by (cases v) (auto simp: escape_def)

lemma dquote_not_comma: "dquote \<noteq> CHR '',''"
  by (simp add: dquote_def)

lemma dquote_not_CR: "dquote \<noteq> CR"
  by (simp add: dquote_def CR_def)

lemma comma_not_CR: "CHR '','' \<noteq> CR"
  by (simp add: CR_def)

lemma join_Cons: "xs \<noteq> [] \<Longrightarrow> join sep (x # xs) = x @ sep @ join sep xs"
  by (cases xs) simp_all

lemma split_commas_body:
  "split_commas True cur (double_quotes s @ rest) = split_commas True (cur @ double_quotes s) rest"
proof (induction s arbitrary: cur)
  case Nil
  show ?case by (simp add: double_quotes_Nil)
next
  case (Cons c s)
  show ?case
  proof (cases "c = dquote")
    case True
    then show ?thesis
      using Cons [of "cur @ [dquote, dquote]"] by (simp add: double_quotes_Cons dquote_not_comma)
  next
    case False
    then show ?thesis
      using Cons [of "cur @ [c]"] by (simp add: double_quotes_Cons)
  qed
qed

lemma split_commas_field:
  "split_commas False cur (escape v @ rest) = split_commas False (cur @ escape v) rest"
proof -
  obtain s where e: "escape v = dquote # double_quotes s @ [dquote]"
    using escape_shape by blast
  have "split_commas False cur (escape v @ rest)
          = split_commas True (cur @ [dquote]) (double_quotes s @ dquote # rest)"
    by (simp add: e dquote_not_comma)
  also have "\<dots> = split_commas True ((cur @ [dquote]) @ double_quotes s) (dquote # rest)"
    by (rule split_commas_body)
  also have "\<dots> = split_commas False (cur @ escape v) rest"
    by (simp add: e dquote_not_comma)
  finally show ?thesis .
qed

lemma split_commas_join:
  "vs \<noteq> [] \<Longrightarrow> split_commas False [] (join '','' (map escape vs)) = map escape vs"
proof (induction vs rule: list_nonempty_induct)
  case (single v)
  show ?case
    using split_commas_field [of "[]" v "[]"] by simp
next
  case (cons v vs)
  have "split_commas False [] (join '','' (map escape (v # vs)))
          = split_commas False (escape v) (CHR '','' # join '','' (map escape vs))"
    using split_commas_field [of "[]" v "CHR '','' # join '','' (map escape vs)"] cons.hyps
    by (simp add: join_Cons)
  also have "\<dots> = escape v # split_commas False [] (join '','' (map escape vs))"
    by simp
  finally show ?case
    using cons.IH by simp
qed

lemma split_lines_step:
  "c \<noteq> CR \<Longrightarrow>
   split_lines inq cur (c # rest)
     = split_lines (if c = dquote then \<not> inq else inq) (cur @ [c]) rest"
  by (cases rest) simp_all

lemma split_lines_step_inside:
  "split_lines True cur (c # rest)
     = split_lines (c \<noteq> dquote) (cur @ [c]) rest"
  by (cases rest) auto

lemma split_lines_body:
  "split_lines True cur (double_quotes s @ rest) = split_lines True (cur @ double_quotes s) rest"
proof (induction s arbitrary: cur)
  case Nil
  show ?case by (simp add: double_quotes_Nil)
next
  case (Cons c s)
  show ?case
  proof (cases "c = dquote")
    case True
    have "split_lines True cur (double_quotes (c # s) @ rest)
            = split_lines False (cur @ [dquote]) (dquote # double_quotes s @ rest)"
      using True by (simp add: double_quotes_Cons split_lines_step_inside)
    also have "\<dots> = split_lines True (cur @ [dquote, dquote]) (double_quotes s @ rest)"
      by (simp add: split_lines_step dquote_not_CR)
    also have "\<dots> = split_lines True ((cur @ [dquote, dquote]) @ double_quotes s) rest"
      by (rule Cons.IH)
    finally show ?thesis
      using True by (simp add: double_quotes_Cons)
  next
    case False
    have "split_lines True cur (double_quotes (c # s) @ rest)
            = split_lines True (cur @ [c]) (double_quotes s @ rest)"
      using False by (simp add: double_quotes_Cons split_lines_step_inside)
    also have "\<dots> = split_lines True ((cur @ [c]) @ double_quotes s) rest"
      by (rule Cons.IH)
    finally show ?thesis
      using False by (simp add: double_quotes_Cons)
  qed
qed

lemma split_lines_field:
  "split_lines False cur (escape v @ rest) = split_lines False (cur @ escape v) rest"
proof -
  obtain s where e: "escape v = dquote # double_quotes s @ [dquote]"
    using escape_shape by blast
  have "split_lines False cur (escape v @ rest)
          = split_lines True (cur @ [dquote]) (double_quotes s @ dquote # rest)"
    by (simp add: e split_lines_step dquote_not_CR)
  also have "\<dots> = split_lines True ((cur @ [dquote]) @ double_quotes s) (dquote # rest)"
    by (rule split_lines_body)
  also have "\<dots> = split_lines False (cur @ escape v) rest"
    by (simp add: e split_lines_step_inside)
  finally show ?thesis .
qed

lemma split_lines_line:
  "split_lines False cur (csv_line vs @ rest) = split_lines False (cur @ csv_line vs) rest"
proof (cases "vs = []")
  case True
  then show ?thesis by (simp add: csv_line_def)
next
  case False
  then show ?thesis
  proof (induction vs arbitrary: cur rule: list_nonempty_induct)
    case (single v)
    show ?case
      using split_lines_field [of cur v rest] by (simp add: csv_line_def)
  next
    case (cons v vs)
    have "split_lines False cur (csv_line (v # vs) @ rest)
            = split_lines False (cur @ escape v) (CHR '','' # csv_line vs @ rest)"
      using split_lines_field [of cur v "CHR '','' # csv_line vs @ rest"] cons.hyps
      by (simp add: csv_line_def join_Cons)
    also have "\<dots> = split_lines False ((cur @ escape v) @ [CHR '','']) (csv_line vs @ rest)"
      by (simp add: split_lines_step comma_not_CR dquote_not_comma [symmetric])
    also have "\<dots> = split_lines False (((cur @ escape v) @ [CHR '','']) @ csv_line vs) rest"
      by (rule cons.IH)
    finally show ?case
      using cons.hyps by (simp add: csv_line_def join_Cons)
  qed
qed

lemma split_lines_join:
  "ls \<noteq> [] \<Longrightarrow> split_lines False [] (join [CR, LF] (map csv_line ls)) = map csv_line ls"
proof (induction ls rule: list_nonempty_induct)
  case (single l)
  show ?case
    using split_lines_line [of "[]" l "[]"] by simp
next
  case (cons l ls)
  have "split_lines False [] (join [CR, LF] (map csv_line (l # ls)))
          = split_lines False (csv_line l) (CR # LF # join [CR, LF] (map csv_line ls))"
    using split_lines_line [of "[]" l "CR # LF # join [CR, LF] (map csv_line ls)"] cons.hyps
    by (simp add: join_Cons)
  also have "\<dots> = csv_line l # split_lines False [] (join [CR, LF] (map csv_line ls))"
    by simp
  finally show ?case
    using cons.IH by simp
qed

lemma csv_line_Nil_iff: "(csv_line vs = []) = (vs = [])"
proof (cases vs)
  case Nil
  then show ?thesis by (simp add: csv_line_def)
next
  case (Cons v ws)
  then show ?thesis
    by (cases ws) (simp_all add: csv_line_def escape_not_Nil)
qed

lemma fields_of_csv_line:
  "(if csv_line (map Some xs) = [] then []
    else map unquote (split_commas False [] (csv_line (map Some xs)))) = xs"
proof (cases "xs = []")
  case True
  then show ?thesis by (simp add: csv_line_def)
next
  case False
  then have "map Some xs \<noteq> []" by simp
  then have "split_commas False [] (csv_line (map Some xs)) = map escape (map Some xs)"
    unfolding csv_line_def by (rule split_commas_join)
  then show ?thesis
    using False by (simp add: csv_line_Nil_iff comp_def unquote_escape)
qed

lemma generateCSV_lines:
  assumes "buildSearchMetadata st = None" and "\<forall>row \<in> set rs. length row = length hs"
  shows "generateCSV st hs rs = BOM @ join [CR, LF] (map csv_line (map (map Some) (hs # rs)))"
proof -
  have "map (\<lambda>i. escape (row_cell row i)) [0..<length hs] = map escape (map Some row)"
    if "row \<in> set rs" for row
  proof -
    from that assms(2) have l: "length row = length hs" by blast
    have "map (\<lambda>i. escape (row_cell row i)) [0..<length row] = map (\<lambda>i. escape (Some (row ! i))) [0..<length row]"
      by (simp add: row_cell_def)
    also have "\<dots> = map (\<lambda>x. escape (Some x)) (map (\<lambda>i. row ! i) [0..<length row])"
      by (simp add: comp_def)
    also have "\<dots> = map escape (map Some row)"
      by (simp only: map_nth) (simp add: comp_def)
    finally show ?thesis
      by (simp only: l)
  qed
  then have rows_eq: "map (\<lambda>row. join '','' (map (\<lambda>i. escape (row_cell row i)) [0..<length hs])) rs
               = map (\<lambda>row. csv_line (map Some row)) rs"
    by (intro map_cong refl) (simp add: csv_line_def)
  have "generateCSV st hs rs
          = BOM @ join [CR, LF]
                    (join '','' (map (\<lambda>h. escape (Some h)) hs)
                     # map (\<lambda>row. join '','' (map (\<lambda>i. escape (row_cell row i)) [0..<length hs])) rs)"
    by (simp add: generateCSV_def assms(1))
  also have "\<dots> = BOM @ join [CR, LF] (csv_line (map Some hs) # map (\<lambda>row. csv_line (map Some row)) rs)"
    unfolding rows_eq by (simp add: csv_line_def comp_def)
  finally show ?thesis
    by (simp add: comp_def)
qed

text \<open>
  Claim C7. Without a metadata block, for every table (its rows have as many cells as there
  are headers), the output is the byte order mark followed by the lines joined by CRLF, a
  line being its fields joined by commas and a field being wrapped in double quotes with
  its double quotes doubled; and stripping the byte order mark, splitting at the CRLFs and
  the commas, and unquoting each field gives back the headers and the rows exactly,
  whatever characters the cells hold.
\<close>

theorem generateCSV_round_trip:
  assumes "buildSearchMetadata st = None" and "\<forall>row \<in> set rs. length row = length hs"
  shows "generateCSV st hs rs
           = BOM @ join [CR, LF]
                     (map (\<lambda>fields. join '','' (map (\<lambda>f. [dquote] @ double_quotes f @ [dquote]) fields))
                        (hs # rs)) \<and>
         read_csv (generateCSV st hs rs) = Some \<lparr>headers = hs, rows = rs\<rparr>"
proof
  show "generateCSV st hs rs
           = BOM @ join [CR, LF]
                     (map (\<lambda>fields. join '','' (map (\<lambda>f. [dquote] @ double_quotes f @ [dquote]) fields))
                        (hs # rs))"
    unfolding generateCSV_lines [OF assms]
    by (simp add: csv_line_def escape_def comp_def)
next
  let ?ls = "map (map Some) (hs # rs)"
  have "split_lines False [] (join [CR, LF] (map csv_line ?ls)) = map csv_line ?ls"
    by (rule split_lines_join) simp
  moreover have "map (\<lambda>line. if line = [] then [] else map unquote (split_commas False [] line))
                   (map csv_line ?ls) = hs # rs"
  proof -
    have "map (\<lambda>line. if line = [] then [] else map unquote (split_commas False [] line))
             (map csv_line (map (map Some) xss)) = xss" for xss
      by (induction xss) (simp_all add: fields_of_csv_line)
    then show ?thesis .
  qed
  ultimately show "read_csv (generateCSV st hs rs) = Some \<lparr>headers = hs, rows = rs\<rparr>"
    unfolding generateCSV_lines [OF assms] read_csv_def
    by (simp add: BOM_def)
qed

theorem generateCSV_round_trip_witness:
  "buildSearchMetadata initial_store = None \<and>
   length [''1, 2'', [dquote]] = length [''a,b'', ''c''] \<and>
   length [''x'' @ [CR, LF] @ ''y'', []] = length [''a,b'', ''c''] \<and>
   read_csv (generateCSV initial_store [''a,b'', ''c''] [[''1, 2'', [dquote]], [''x'' @ [CR, LF] @ ''y'', []]])
     = Some \<lparr>headers = [''a,b'', ''c''], rows = [[''1, 2'', [dquote]], [''x'' @ [CR, LF] @ ''y'', []]]\<rparr>"
proof -
  have m: "buildSearchMetadata initial_store = None"
    by (simp add: buildSearchMetadata_def initial_store_def)
  have l: "\<forall>row \<in> set [[''1, 2'', [dquote]], [''x'' @ [CR, LF] @ ''y'', []]].
             length row = length [''a,b'', ''c'']"
    by simp
  show ?thesis
    using m generateCSV_round_trip [OF m l, THEN conjunct2] by simp
qed

end
